theory Spec2Isabelle
  imports Main "HOL-Library.Word" "HOL-Library.Signed_Division"
begin

section \<open>pg\_unique\_slug: timestamp slugs with bucketed random letters\<close>

text \<open>
  A shallow embedding of \<^verbatim>\<open>src/pg_unique_slug.c\<close>. The C types are modelled as follows:
  \<^item> \<^verbatim>\<open>uint64\<close> is \<open>64 word\<close>, so that \<open>+\<close> and \<open>*\<close> wrap around as in C;
  \<^item> \<^verbatim>\<open>time_t\<close> and \<^verbatim>\<open>long\<close> (the fields of \<^verbatim>\<open>struct timespec\<close>) are signed 64-bit
    values, held as \<open>int\<close>; the cast \<^verbatim>\<open>(uint64)\<close> is \<open>word_of_int\<close> (reduction modulo
    \<open>2 ^ 64\<close>) and \<^verbatim>\<open>/\<close> on them is the truncating \<open>sdiv\<close>;
  \<^item> \<^verbatim>\<open>int\<close> and \<^verbatim>\<open>int32\<close> (the length, the loop counter, a digit) are \<open>int\<close> or \<open>nat\<close>:
    no operation on them can overflow (the counter stays below the length);
  \<^item> \<^verbatim>\<open>unsigned char\<close> is \<open>8 word\<close>;
  \<^item> a C string is the \<open>string\<close> of its characters before the terminating NUL.
\<close>

subsection \<open>The constant tables\<close>

definition digit_buckets :: "string list" where
  "digit_buckets =
     [''qWeRtY'', ''QwErTy'', ''uIoPa'', ''UiOpA'', ''sDfGh'',
      ''SdFgH'', ''jKlZx'', ''JkLzX'', ''cVbNm'', ''CvBnM'']"

definition bucket_sizes :: "int list" where
  "bucket_sizes = [6, 6, 5, 5, 5, 5, 5, 5, 5, 5]"

subsection \<open>Errors and the outside world\<close>

text \<open>
  \<^verbatim>\<open>ereport(ERROR, ...)\<close> leaves the function by a non-local exit: the call returns no
  value. An error report carries its SQLSTATE (\<^verbatim>\<open>ERRCODE_INTERNAL_ERROR\<close> when the
  report gives no \<^verbatim>\<open>errcode\<close>), its message and its optional hint. \<open>OutOfBounds\<close> stands
  for a read outside the tables or outside the written part of the digit buffer, which
  C leaves undefined.
\<close>

datatype sqlstate = ERRCODE_INVALID_PARAMETER_VALUE | ERRCODE_INTERNAL_ERROR

datatype error = Ereport sqlstate string "string option" | OutOfBounds

record timespec =
  tv_sec :: int
  tv_nsec :: int

datatype switch_arm = Case10 | Case13 | Case16 | Case19 | CaseDefault

datatype event = ClockGettime | SwitchArm switch_arm | StrongRandom

text \<open>
  The world a call runs in: the reading of the realtime clock, the outcomes of the next
  calls of \<^verbatim>\<open>pg_strong_random\<close> (\<open>rand_src w k\<close> is the byte the \<open>k\<close>-th next call
  delivers, \<open>None\<close> when that call fails), and the trace of what has happened so far.
\<close>

record world =
  clock :: timespec
  rand_src :: "nat \<Rightarrow> 8 word option"
  trace :: "event list"

definition clock_gettime :: "world \<Rightarrow> timespec \<times> world" where
  "clock_gettime w = (clock w, w\<lparr>trace := trace w @ [ClockGettime]\<rparr>)"

definition pg_strong_random :: "world \<Rightarrow> 8 word option \<times> world" where
  "pg_strong_random w =
     (rand_src w 0,
      w\<lparr>rand_src := (\<lambda>k. rand_src w (Suc k)), trace := trace w @ [StrongRandom]\<rparr>)"

subsection \<open>\<^verbatim>\<open>get_timestamp_value\<close>\<close>

definition switch_precision :: "int \<Rightarrow> switch_arm" where
  "switch_precision precision =
     (if precision = 10 then Case10
      else if precision = 13 then Case13
      else if precision = 16 then Case16
      else if precision = 19 then Case19
      else CaseDefault)"

definition get_timestamp_value :: "int \<Rightarrow> world \<Rightarrow> 64 word \<times> world" where
  "get_timestamp_value precision w =
     (case clock_gettime w of (ts, w1) \<Rightarrow>
        let arm = switch_precision precision;
            w2 = w1\<lparr>trace := trace w1 @ [SwitchArm arm]\<rparr>
        in (case arm of
              Case10 \<Rightarrow> word_of_int (tv_sec ts)
            | Case13 \<Rightarrow> word_of_int (tv_sec ts) * 1000 + word_of_int (tv_nsec ts sdiv 1000000)
            | Case16 \<Rightarrow> word_of_int (tv_sec ts) * 1000000 + word_of_int (tv_nsec ts sdiv 1000)
            | Case19 \<Rightarrow> word_of_int (tv_sec ts) * 1000000000 + word_of_int (tv_nsec ts)
            | CaseDefault \<Rightarrow>
                word_of_int (tv_sec ts) * 1000000 + word_of_int (tv_nsec ts sdiv 1000),
            w2))"

subsection \<open>\<^verbatim>\<open>snprintf(digits, sizeof(digits), "%0*llu", len, ts)\<close>\<close>

text \<open>
  The C library's formatting, as far as this call uses it: \<^verbatim>\<open>%llu\<close> prints the decimal
  digits of the value; the width is a minimum, reached by zeros on the left (a negative
  width asks for left justification, which pads with blanks on the right and ignores the
  \<^verbatim>\<open>0\<close> flag); of the characters so produced, \<^verbatim>\<open>snprintf\<close> stores the first \<open>bufsize - 1\<close>.
\<close>

fun dec_digits :: "nat \<Rightarrow> string" where
  "dec_digits n =
     (if n < 10 then [char_of (48 + n)]
      else dec_digits (n div 10) @ [char_of (48 + n mod 10)])"

declare dec_digits.simps [simp del]

definition format_0llu :: "int \<Rightarrow> 64 word \<Rightarrow> string" where
  "format_0llu width v =
     (let d = dec_digits (unat v) in
      if 0 \<le> width then replicate (nat width - length d) (CHR ''0'') @ d
      else d @ replicate (nat (- width) - length d) (CHR '' ''))"

definition snprintf_0llu :: "nat \<Rightarrow> int \<Rightarrow> 64 word \<Rightarrow> string" where
  "snprintf_0llu bufsize width v = take (bufsize - 1) (format_0llu width v)"

subsection \<open>\<^verbatim>\<open>timestamp_to_slug\<close>\<close>

definition random_failed :: error where
  "random_failed = Ereport ERRCODE_INTERNAL_ERROR ''pg_strong_random failed'' None"

text \<open>
  The loop \<^verbatim>\<open>for (int i = 0; i < len; i++)\<close>. The buffer \<^verbatim>\<open>slug\<close> is the list of the
  characters written so far, so that \<^verbatim>\<open>slug_pos\<close> is its length. The reads of
  \<^verbatim>\<open>digits[i]\<close>, \<^verbatim>\<open>bucket_sizes[digit]\<close> and \<^verbatim>\<open>digit_buckets[digit]\<close> are checked against
  what \<^verbatim>\<open>snprintf\<close> wrote and against the ten entries of the tables. (The digit buffer
  holds at most 19 characters, so the 22 bytes of \<^verbatim>\<open>slug\<close> are never exceeded before a
  read of \<^verbatim>\<open>digits\<close> is out of bounds.)
\<close>

function slug_loop :: "string \<Rightarrow> int \<Rightarrow> int \<Rightarrow> nat \<Rightarrow> string \<Rightarrow> world \<Rightarrow> (error + string) \<times> world" where
  "slug_loop digits len half i slug w =
     (if int i < len then
        (if i < length digits then
           (let digit = int (of_char (digits ! i)) - 48 in
            if 0 \<le> digit \<and> digit < 10 then
              (let bucket_size = bucket_sizes ! nat digit;
                   slug1 = (if int i = half then slug @ [CHR ''-''] else slug)
               in case pg_strong_random w of
                    (None, w1) \<Rightarrow> (Inl random_failed, w1)
                  | (Some rnd, w1) \<Rightarrow>
                      slug_loop digits len half (Suc i)
                        (slug1 @ [digit_buckets ! nat digit ! nat (uint rnd mod bucket_size)]) w1)
            else (Inl OutOfBounds, w))
         else (Inl OutOfBounds, w))
      else (Inr slug, w))"
  by pat_completeness auto
termination
  by (relation "measure (\<lambda>(digits, len, half, i, slug, w). nat (len - int i))") auto

declare slug_loop.simps [simp del]

definition timestamp_to_slug :: "64 word \<Rightarrow> int \<Rightarrow> world \<Rightarrow> (error + string) \<times> world" where
  "timestamp_to_slug ts len w =
     (let digits = snprintf_0llu 20 len ts;
          half = len sdiv 2
      in slug_loop digits len half 0 [] w)"

subsection \<open>\<^verbatim>\<open>gen_unique_slug\<close>\<close>

definition invalid_parameter :: error where
  "invalid_parameter =
     Ereport ERRCODE_INVALID_PARAMETER_VALUE
       ''slug_length must be 10, 13, 16, or 19''
       (Some ''10=seconds, 13=milliseconds, 16=microseconds, 19=nanoseconds'')"

text \<open>The argument is \<open>None\<close> when \<^verbatim>\<open>PG_ARGISNULL(0)\<close> holds.\<close>

definition gen_unique_slug :: "int option \<Rightarrow> world \<Rightarrow> (error + string) \<times> world" where
  "gen_unique_slug arg w =
     (let len = (case arg of None \<Rightarrow> 16 | Some v \<Rightarrow> v) in
      if len \<noteq> 10 \<and> len \<noteq> 13 \<and> len \<noteq> 16 \<and> len \<noteq> 19 then (Inl invalid_parameter, w)
      else (case get_timestamp_value len w of
              (ts, w1) \<Rightarrow> timestamp_to_slug ts len w1))"

subsection \<open>Notions used to state the properties\<close>

text \<open>The four lengths that pass the validation of \<^verbatim>\<open>gen_unique_slug\<close>.\<close>

definition valid_length :: "int \<Rightarrow> bool" where
  "valid_length len = (len = 10 \<or> len = 13 \<or> len = 16 \<or> len = 19)"

text \<open>A decimal digit character, \<^verbatim>\<open>'0'\<close> to \<^verbatim>\<open>'9'\<close>.\<close>

definition isdigit :: "char \<Rightarrow> bool" where
  "isdigit c = (48 \<le> (of_char c :: nat) \<and> (of_char c :: nat) \<le> 57)"

text \<open>
  The digit string that is encoded: the characters \<^verbatim>\<open>digits[0]\<close> to \<^verbatim>\<open>digits[len - 1]\<close>
  which the loop reads.
\<close>

definition digit_string :: "64 word \<Rightarrow> int \<Rightarrow> string" where
  "digit_string ts len = take (nat len) (snprintf_0llu 20 len ts)"

text \<open>
  The letter the loop body writes for the digit character \<open>c\<close> and the random byte
  \<open>rnd\<close>: \<^verbatim>\<open>digit_buckets[digit][rnd % bucket_size]\<close>.
\<close>

definition bucket_letter :: "char \<Rightarrow> 8 word \<Rightarrow> char" where
  "bucket_letter c rnd =
     (let digit = int (of_char c) - 48
      in digit_buckets ! nat digit ! nat (uint rnd mod bucket_sizes ! nat digit))"

text \<open>The value \<^verbatim>\<open>digits[i] - '0'\<close> of a digit character, as an index into the tables.\<close>

definition digit_value :: "char \<Rightarrow> nat" where
  "digit_value c = nat (int (of_char c) - 48)"

text \<open>What one iteration appends to the slug, and the letters of the positions \<open>i..<j\<close>.\<close>

definition slug_piece :: "string \<Rightarrow> int \<Rightarrow> (nat \<Rightarrow> 8 word) \<Rightarrow> nat \<Rightarrow> string" where
  "slug_piece digits half r k =
     (if int k = half then [CHR ''-''] else []) @ [bucket_letter (digits ! k) (r k)]"

definition letters :: "string \<Rightarrow> (nat \<Rightarrow> 8 word) \<Rightarrow> nat \<Rightarrow> nat \<Rightarrow> string" where
  "letters digits r i j = map (\<lambda>k. bucket_letter (digits ! k) (r k)) [i..<j]"

text \<open>
  The timestamp value as the specification words it, in exact integer arithmetic with
  truncating division: \<open>secs\<close>, \<open>secs * 1000 + nanos / 1000000\<close>,
  \<open>secs * 1000000 + nanos / 1000\<close>, \<open>secs * 1000000000 + nanos\<close> for the lengths 10, 13,
  16 and 19.
\<close>

definition spec_timestamp_value :: "int \<Rightarrow> timespec \<Rightarrow> int" where
  "spec_timestamp_value len t =
     (if len = 10 then tv_sec t
      else if len = 13 then tv_sec t * 1000 + tv_nsec t sdiv 1000000
      else if len = 16 then tv_sec t * 1000000 + tv_nsec t sdiv 1000
      else tv_sec t * 1000000000 + tv_nsec t)"

text \<open>
  Decoding, to state that a slug determines its digit string: a letter stands for the
  digit whose bucket holds it; the separator is dropped.
\<close>

definition decode_char :: "char \<Rightarrow> char" where
  "decode_char c =
     (case find (\<lambda>d. c \<in> set (digit_buckets ! d)) [0..<10] of
        Some d \<Rightarrow> char_of (48 + d)
      | None \<Rightarrow> c)"

definition decode_slug :: "string \<Rightarrow> string" where
  "decode_slug slug = map decode_char (filter (\<lambda>c. c \<noteq> CHR ''-'') slug)"

text \<open>
  The digit string as the specification words it for a value with too many digits: the
  lowest-order \<open>len\<close> digits of the value, that is, the value modulo \<open>10 ^ len\<close>, padded
  with zeros to \<open>len\<close> characters.
\<close>

definition spec_low_order_digits :: "64 word \<Rightarrow> int \<Rightarrow> string" where
  "spec_low_order_digits ts len =
     (let d = dec_digits (unat ts mod 10 ^ nat len)
      in replicate (nat len - length d) (CHR ''0'') @ d)"

text \<open>
  Two worlds to run the functions in: in \<open>w_ok\<close> every draw succeeds (the \<open>k\<close>-th byte
  is \<open>7 * k + 3\<close>); in \<open>w_fail\<close> the fourth draw fails; in \<open>w_far\<close> the clock reads
  a time in the year 2554.
\<close>

definition w_ok :: world where
  "w_ok = \<lparr>clock = \<lparr>tv_sec = 1700000000, tv_nsec = 123456789\<rparr>,
           rand_src = (\<lambda>k. Some (word_of_nat (7 * k + 3))),
           trace = []\<rparr>"

definition w_fail :: world where
  "w_fail = \<lparr>clock = \<lparr>tv_sec = 1700000000, tv_nsec = 123456789\<rparr>,
             rand_src = (\<lambda>k. if k = 3 then None else Some (word_of_nat (7 * k + 3))),
             trace = []\<rparr>"

definition w_far :: world where
  "w_far = \<lparr>clock = \<lparr>tv_sec = 18446744074, tv_nsec = 0\<rparr>,
            rand_src = (\<lambda>k. Some (word_of_nat (7 * k + 3))),
            trace = []\<rparr>"

section \<open>Auxiliary facts\<close>

subsection \<open>Decimal digits\<close>

lemma char_of_digit: "d < 10 \<Longrightarrow> char_of (48 + d :: nat) = ''0123456789'' ! d"
proof -
  assume "d < 10"
  then consider "d = 0" | "d = 1" | "d = 2" | "d = 3" | "d = 4" | "d = 5" | "d = 6" | "d = 7" | "d = 8" | "d = 9"
    by atomize_elim arith
  then show ?thesis
    by cases (simp_all add: char_of_def bit_Suc_0_iff)
qed

lemma dec_digits_lt10: "n < 10 \<Longrightarrow> dec_digits n = [''0123456789'' ! n]"
  by (simp add: dec_digits.simps char_of_digit)

lemma dec_digits_ge10: "10 \<le> n \<Longrightarrow> dec_digits n = dec_digits (n div 10) @ [''0123456789'' ! (n mod 10)]"
  by (subst dec_digits.simps) (simp add: char_of_digit)

lemma isdigit_char_of: "d < 10 \<Longrightarrow> isdigit (char_of (48 + d :: nat))"
  by (simp add: isdigit_def)

lemma isdigit_zero: "isdigit (CHR ''0'')"
  by (simp add: isdigit_def)

lemma dec_digits_isdigit: "list_all isdigit (dec_digits n)"
proof (induction n rule: dec_digits.induct)
  case (1 n)
  show ?case
  proof (cases "n < 10")
    case True
    then show ?thesis by (subst dec_digits.simps) (simp add: isdigit_char_of)
  next
    case False
    with 1 show ?thesis by (subst dec_digits.simps) (simp add: isdigit_char_of)
  qed
qed

lemma length_dec_digits_pos: "0 < length (dec_digits n)"
  by (subst dec_digits.simps) simp

lemma length_dec_digits_le: "0 < k \<Longrightarrow> n < 10 ^ k \<Longrightarrow> length (dec_digits n) \<le> k"
proof (induction n arbitrary: k rule: dec_digits.induct)
  case (1 n)
  show ?case
  proof (cases "n < 10")
    case True
    with 1(2) show ?thesis by (subst dec_digits.simps) simp
  next
    case False
    from False 1(3) have "1 < k" by (cases "k = 1") (use 1(2) in auto)
    then obtain j where k: "k = Suc j" and j: "0 < j" by (cases k) auto
    from 1(3) k have "n div 10 < 10 ^ j" by (simp add: less_mult_imp_div_less mult.commute)
    with 1(1)[OF False j] have "length (dec_digits (n div 10)) \<le> j" by simp
    with False k show ?thesis by (subst dec_digits.simps) simp
  qed
qed

lemma length_dec_digits_gt: "10 ^ k \<le> n \<Longrightarrow> k < length (dec_digits n)"
proof (induction n arbitrary: k rule: dec_digits.induct)
  case (1 n)
  show ?case
  proof (cases "n < 10")
    case True
    have "k = 0"
    proof (rule ccontr)
      assume "k \<noteq> 0"
      then obtain j where kj: "k = Suc j" by (cases k) auto
      have "(10::nat) \<le> 10 * 10 ^ j" by simp
      also have "\<dots> = 10 ^ k" by (simp add: kj)
      also have "\<dots> \<le> n" by (rule 1(2))
      finally show False using True by simp
    qed
    then show ?thesis using length_dec_digits_pos[of n] by simp
  next
    case False
    show ?thesis
    proof (cases k)
      case 0
      then show ?thesis using length_dec_digits_pos[of n] by simp
    next
      case (Suc j)
      with 1(2) have "10 ^ j \<le> n div 10" by (simp add: less_eq_div_iff_mult_less_eq mult.commute)
      with 1(1)[OF False] have "j < length (dec_digits (n div 10))" by simp
      with False Suc show ?thesis by (subst dec_digits.simps) simp
    qed
  qed
qed

lemma dec_digits_div:
  "m < length (dec_digits n) \<Longrightarrow>
     dec_digits (n div 10 ^ m) = take (length (dec_digits n) - m) (dec_digits n)"
proof (induction m arbitrary: n)
  case 0
  then show ?case by simp
next
  case (Suc m)
  have ge: "10 \<le> n"
  proof (rule ccontr)
    assume "\<not> 10 \<le> n"
    then have "length (dec_digits n) = 1" by (subst dec_digits.simps) simp
    with Suc.prems show False by simp
  qed
  then have d: "dec_digits n = dec_digits (n div 10) @ [char_of (48 + n mod 10)]"
    by (subst dec_digits.simps) simp
  then have l: "length (dec_digits n) = Suc (length (dec_digits (n div 10)))" by simp
  with Suc.prems have m: "m < length (dec_digits (n div 10))" by simp
  have "n div 10 ^ Suc m = n div 10 div 10 ^ m" by (simp add: div_mult2_eq)
  also have "dec_digits \<dots> = take (length (dec_digits (n div 10)) - m) (dec_digits (n div 10))"
    by (rule Suc.IH[OF m])
  also have "\<dots> = take (length (dec_digits n) - Suc m) (dec_digits n)"
    by (simp add: d)
  finally show ?case .
qed

subsection \<open>The formatted buffer\<close>

lemma valid_length_half:
  assumes "valid_length len"
  shows "len sdiv 2 = int (nat len div 2)" and "0 < nat len div 2" and "nat len div 2 < nat len"
    and "0 \<le> len" and "len \<le> 19"
  using assms by (auto simp: valid_length_def signed_divide_int_def)

lemma format_0llu_nonneg:
  "0 \<le> width \<Longrightarrow> format_0llu width v =
     replicate (nat width - length (dec_digits (unat v))) (CHR ''0'') @ dec_digits (unat v)"
  by (simp add: format_0llu_def Let_def)

lemma format_0llu_isdigit: "0 \<le> width \<Longrightarrow> list_all isdigit (format_0llu width v)"
  using dec_digits_isdigit[of "unat v"]
  by (auto simp: format_0llu_nonneg list_all_iff isdigit_zero)

lemma length_format_0llu:
  "0 \<le> width \<Longrightarrow> length (format_0llu width v) = max (nat width) (length (dec_digits (unat v)))"
  by (simp add: format_0llu_nonneg)

lemma snprintf_0llu_isdigit: "0 \<le> width \<Longrightarrow> list_all isdigit (snprintf_0llu n width v)"
  using format_0llu_isdigit[of width v]
  by (auto simp: snprintf_0llu_def list_all_iff dest: in_set_takeD)

lemma length_snprintf_0llu:
  "0 \<le> width \<Longrightarrow> width \<le> 19 \<Longrightarrow> nat width \<le> length (snprintf_0llu 20 width v)"
  by (simp add: snprintf_0llu_def length_format_0llu)

lemma digits_readable:
  assumes "0 \<le> len" and "len \<le> 19"
  shows "\<forall>k. i \<le> k \<and> int k < len \<longrightarrow>
           k < length (snprintf_0llu 20 len ts) \<and> isdigit (snprintf_0llu 20 len ts ! k)"
proof (intro allI impI)
  fix k assume "i \<le> k \<and> int k < len"
  then have "k < nat len" by linarith
  with length_snprintf_0llu[OF assms, of ts] have k: "k < length (snprintf_0llu 20 len ts)" by simp
  with snprintf_0llu_isdigit[OF assms(1), of 20 ts]
  show "k < length (snprintf_0llu 20 len ts) \<and> isdigit (snprintf_0llu 20 len ts ! k)"
    by (simp add: list_all_length)
qed

lemma length_digit_string: "0 \<le> len \<Longrightarrow> len \<le> 19 \<Longrightarrow> length (digit_string ts len) = nat len"
  using length_snprintf_0llu[of len ts] by (simp add: digit_string_def)

lemma digit_string_nth: "k < nat len \<Longrightarrow> digit_string ts len ! k = snprintf_0llu 20 len ts ! k"
  by (simp add: digit_string_def)

lemma digit_string_isdigit: "0 \<le> len \<Longrightarrow> list_all isdigit (digit_string ts len)"
  using snprintf_0llu_isdigit[of len 20 ts]
  by (auto simp: digit_string_def list_all_iff dest: in_set_takeD)

lemma digit_string_overflow:
  assumes "valid_length len" and "nat len \<le> length (dec_digits (unat ts))"
  shows "digit_string ts len = take (nat len) (dec_digits (unat ts))"
proof -
  note h = valid_length_half[OF assms(1)]
  have "format_0llu len ts = dec_digits (unat ts)"
    using assms(2) by (simp add: format_0llu_nonneg[OF h(4)])
  moreover have "min (nat len) 19 = nat len" using h(5) by simp
  ultimately show ?thesis by (simp add: digit_string_def snprintf_0llu_def)
qed

subsection \<open>The loop\<close>

lemma isdigit_digit:
  assumes "isdigit c"
  shows "0 \<le> int (of_char c) - 48" and "int (of_char c) - 48 < 10"
    and "nat (int (of_char c) - 48) = of_char c - 48"
  using assms by (simp_all add: isdigit_def)

lemma slug_loop_step:
  assumes "int i < len" and "i < length digits" and "isdigit (digits ! i)"
  shows "slug_loop digits len half i slug w =
     (case rand_src w 0 of
        None \<Rightarrow> (Inl random_failed, snd (pg_strong_random w))
      | Some rnd \<Rightarrow>
          slug_loop digits len half (Suc i)
            (slug @ (if int i = half then [CHR ''-''] else []) @ [bucket_letter (digits ! i) rnd])
            (snd (pg_strong_random w)))"
  using assms
  by (subst slug_loop.simps)
     (simp add: isdigit_def Let_def bucket_letter_def pg_strong_random_def split: option.split)

lemma slug_loop_done: "\<not> int i < len \<Longrightarrow> slug_loop digits len half i slug w = (Inr slug, w)"
  by (subst slug_loop.simps) simp

lemma slug_loop_oob:
  assumes "int i < len" and "\<not> (i < length digits \<and> isdigit (digits ! i))"
  shows "slug_loop digits len half i slug w = (Inl OutOfBounds, w)"
  using assms
  by (subst slug_loop.simps) (auto simp: isdigit_def Let_def)

lemma rand_src_after: "rand_src (snd (pg_strong_random w)) k = rand_src w (Suc k)"
  by (simp add: pg_strong_random_def)

lemma trace_after: "trace (snd (pg_strong_random w)) = trace w @ [StrongRandom]"
  by (simp add: pg_strong_random_def)

lemma slug_loop_ok:
  assumes "\<forall>k. i \<le> k \<and> int k < len \<longrightarrow> k < length digits \<and> isdigit (digits ! k)"
    and "\<forall>k. int (i + k) < len \<longrightarrow> rand_src w k = Some (r (i + k))"
  shows "fst (slug_loop digits len half i slug w) =
           Inr (slug @ concat (map (slug_piece digits half r) [i..<nat len]))"
  using assms
proof (induction "nat len - i" arbitrary: i slug w)
  case 0
  then have "\<not> int i < len" by simp
  moreover from this have "[i..<nat len] = []" by simp
  ultimately show ?case by (simp add: slug_loop_done)
next
  case (Suc n)
  from Suc(2) have lt: "int i < len" by linarith
  with Suc(3) have dig: "i < length digits" "isdigit (digits ! i)" by auto
  from Suc(4) lt have r0: "rand_src w 0 = Some (r i)" by (metis add.right_neutral)
  let ?w1 = "snd (pg_strong_random w)"
  let ?slug1 = "slug @ (if int i = half then [CHR ''-''] else []) @ [bucket_letter (digits ! i) (r i)]"
  have n: "n = nat len - Suc i" using Suc(2) by simp
  have d1: "\<forall>k. Suc i \<le> k \<and> int k < len \<longrightarrow> k < length digits \<and> isdigit (digits ! k)"
    using Suc(3) by simp
  have r1: "\<forall>k. int (Suc i + k) < len \<longrightarrow> rand_src ?w1 k = Some (r (Suc i + k))"
    using Suc(4) by (simp add: rand_src_after)
  have "fst (slug_loop digits len half (Suc i) ?slug1 ?w1) =
          Inr (?slug1 @ concat (map (slug_piece digits half r) [Suc i..<nat len]))"
    by (rule Suc(1)[OF n d1 r1])
  moreover have "[i..<nat len] = i # [Suc i..<nat len]"
    using lt by (simp add: upt_conv_Cons)
  ultimately show ?case
    by (simp add: slug_loop_step[OF lt dig] r0 slug_piece_def)
qed

lemma slug_loop_fail:
  assumes "\<forall>k. i \<le> k \<and> int k < len \<longrightarrow> k < length digits \<and> isdigit (digits ! k)"
    and "int (i + j) < len" and "rand_src w j = None"
  shows "fst (slug_loop digits len half i slug w) = Inl random_failed"
  using assms
proof (induction j arbitrary: i slug w)
  case 0
  then have lt: "int i < len" by simp
  with 0(1) have dig: "i < length digits" "isdigit (digits ! i)" by auto
  show ?case by (simp add: slug_loop_step[OF lt dig] 0(3))
next
  case (Suc j)
  then have lt: "int i < len" by simp
  with Suc(2) have dig: "i < length digits" "isdigit (digits ! i)" by auto
  let ?w1 = "snd (pg_strong_random w)"
  have d1: "\<forall>k. Suc i \<le> k \<and> int k < len \<longrightarrow> k < length digits \<and> isdigit (digits ! k)"
    using Suc(2) by simp
  have j1: "int (Suc i + j) < len" using Suc(3) by simp
  have n1: "rand_src ?w1 j = None" using Suc(4) by (simp add: rand_src_after)
  show ?case
  proof (cases "rand_src w 0")
    case None
    then show ?thesis by (simp add: slug_loop_step[OF lt dig])
  next
    case (Some rnd)
    then show ?thesis
      by (simp add: slug_loop_step[OF lt dig] Suc(1)[OF d1 j1 n1])
  qed
qed

lemma slug_loop_trace:
  "\<exists>m. trace (snd (slug_loop digits len half i slug w)) = trace w @ replicate m StrongRandom"
proof (induction "nat len - i" arbitrary: i slug w)
  case 0
  then have "\<not> int i < len" by simp
  then show ?case by (simp add: slug_loop_done)
next
  case (Suc n)
  from Suc(2) have lt: "int i < len" by linarith
  show ?case
  proof (cases "i < length digits \<and> isdigit (digits ! i)")
    case False
    then show ?thesis by (simp add: slug_loop_oob[OF lt])
  next
    case True
    then have dig: "i < length digits" "isdigit (digits ! i)" by auto
    show ?thesis
    proof (cases "rand_src w 0")
      case None
      then have "trace (snd (slug_loop digits len half i slug w)) = trace w @ replicate 1 StrongRandom"
        by (simp add: slug_loop_step[OF lt dig] pg_strong_random_def)
      then show ?thesis by blast
    next
      case (Some rnd)
      let ?w1 = "snd (pg_strong_random w)"
      let ?slug1 = "slug @ (if int i = half then [CHR ''-''] else []) @ [bucket_letter (digits ! i) rnd]"
      have n: "n = nat len - Suc i" using Suc(2) by simp
      from Suc(1)[OF n, of ?slug1 ?w1]
      obtain m where "trace (snd (slug_loop digits len half (Suc i) ?slug1 ?w1)) =
          trace ?w1 @ replicate m StrongRandom"
        by blast
      then have "trace (snd (slug_loop digits len half i slug w)) =
          trace w @ replicate (Suc m) StrongRandom"
        by (simp add: slug_loop_step[OF lt dig] Some pg_strong_random_def replicate_append_same)
      then show ?thesis by blast
    qed
  qed
qed

lemma slug_loop_fail_trace:
  assumes "\<forall>k. i \<le> k \<and> int k < len \<longrightarrow> k < length digits \<and> isdigit (digits ! k)"
    and "int (i + j) < len" and "rand_src w j = None" and "\<forall>k<j. rand_src w k \<noteq> None"
  shows "trace (snd (slug_loop digits len half i slug w)) = trace w @ replicate (Suc j) StrongRandom"
  using assms
proof (induction j arbitrary: i slug w)
  case 0
  then have lt: "int i < len" by simp
  with 0(1) have dig: "i < length digits" "isdigit (digits ! i)" by auto
  show ?case by (simp add: slug_loop_step[OF lt dig] 0(3) trace_after)
next
  case (Suc j)
  then have lt: "int i < len" by simp
  with Suc(2) have dig: "i < length digits" "isdigit (digits ! i)" by auto
  let ?w1 = "snd (pg_strong_random w)"
  have d1: "\<forall>k. Suc i \<le> k \<and> int k < len \<longrightarrow> k < length digits \<and> isdigit (digits ! k)"
    using Suc(2) by simp
  have j1: "int (Suc i + j) < len" using Suc(3) by simp
  have n1: "rand_src ?w1 j = None" using Suc(4) by (simp add: rand_src_after)
  have a1: "\<forall>k<j. rand_src ?w1 k \<noteq> None" using Suc(5) by (simp add: rand_src_after)
  from Suc(5) obtain rnd where r0: "rand_src w 0 = Some rnd" by auto
  show ?case
    by (simp add: slug_loop_step[OF lt dig] r0 Suc(1)[OF d1 j1 n1 a1] trace_after
        replicate_append_same)
qed

lemma concat_pieces_no_hyphen:
  "\<forall>k \<in> set ks. int k \<noteq> half \<Longrightarrow>
     concat (map (slug_piece digits half r) ks) = map (\<lambda>k. bucket_letter (digits ! k) (r k)) ks"
  by (induction ks) (simp_all add: slug_piece_def)

lemma concat_pieces_split:
  assumes "i \<le> h" and "h < n"
  shows "concat (map (slug_piece digits (int h) r) [i..<n]) =
           letters digits r i h @ CHR ''-'' # letters digits r h n"
proof -
  have "[i..<n] = [i..<h] @ h # [Suc h..<n]"
    using assms by (metis le_add_diff_inverse less_imp_le_nat upt_add_eq_append upt_conv_Cons)
  moreover have "concat (map (slug_piece digits (int h) r) [i..<h]) = letters digits r i h"
    by (simp add: concat_pieces_no_hyphen letters_def)
  moreover have "concat (map (slug_piece digits (int h) r) [Suc h..<n]) = letters digits r (Suc h) n"
    by (simp add: concat_pieces_no_hyphen letters_def)
  moreover have "letters digits r h n = bucket_letter (digits ! h) (r h) # letters digits r (Suc h) n"
    using assms by (simp add: letters_def upt_conv_Cons)
  ultimately show ?thesis by (simp add: slug_piece_def)
qed

subsection \<open>The outcome of a call\<close>

lemma timestamp_to_slug_ok:
  assumes "valid_length len" and "\<forall>k<nat len. rand_src w k \<noteq> None"
  shows "fst (timestamp_to_slug ts len w) =
     Inr (letters (digit_string ts len) (\<lambda>k. the (rand_src w k)) 0 (nat len div 2) @
          CHR ''-'' #
          letters (digit_string ts len) (\<lambda>k. the (rand_src w k)) (nat len div 2) (nat len))"
proof -
  let ?digits = "snprintf_0llu 20 len ts"
  let ?r = "\<lambda>k. the (rand_src w k)"
  note h = valid_length_half[OF assms(1)]
  have r: "\<forall>k. int (0 + k) < len \<longrightarrow> rand_src w k = Some (?r (0 + k))"
    using assms(2) by auto
  have "fst (slug_loop ?digits len (len sdiv 2) 0 [] w) =
          Inr ([] @ concat (map (slug_piece ?digits (len sdiv 2) ?r) [0..<nat len]))"
    by (rule slug_loop_ok[OF digits_readable[OF h(4,5)] r])
  also have "concat (map (slug_piece ?digits (len sdiv 2) ?r) [0..<nat len]) =
      letters ?digits ?r 0 (nat len div 2) @ CHR ''-'' # letters ?digits ?r (nat len div 2) (nat len)"
    unfolding h(1) by (rule concat_pieces_split) (use h in simp_all)
  also have "letters ?digits ?r 0 (nat len div 2) = letters (digit_string ts len) ?r 0 (nat len div 2)"
    using h(3) by (simp add: letters_def digit_string_nth)
  also have "letters ?digits ?r (nat len div 2) (nat len) =
      letters (digit_string ts len) ?r (nat len div 2) (nat len)"
    by (simp add: letters_def digit_string_nth)
  finally show ?thesis by (simp add: timestamp_to_slug_def Let_def)
qed

lemma timestamp_to_slug_fail:
  assumes "valid_length len" and "k < nat len" and "rand_src w k = None"
  shows "fst (timestamp_to_slug ts len w) = Inl random_failed"
proof -
  note h = valid_length_half[OF assms(1)]
  have "int (0 + k) < len" using assms(2) by simp
  from slug_loop_fail[OF digits_readable[OF h(4,5)] this assms(3)]
  show ?thesis by (simp add: timestamp_to_slug_def Let_def)
qed

lemma timestamp_to_slug_Inr:
  assumes "valid_length len" and "fst (timestamp_to_slug ts len w) = Inr slug"
  shows "\<forall>k<nat len. rand_src w k \<noteq> None"
proof (intro allI impI notI)
  fix k assume "k < nat len" and "rand_src w k = None"
  from timestamp_to_slug_fail[OF assms(1) this] assms(2) show False by simp
qed

lemma timestamp_to_slug_outcome:
  assumes "valid_length len"
  shows "(\<exists>slug. fst (timestamp_to_slug ts len w) = Inr slug) \<or>
         fst (timestamp_to_slug ts len w) = Inl random_failed"
proof (cases "\<forall>k<nat len. rand_src w k \<noteq> None")
  case True
  from timestamp_to_slug_ok[OF assms True] show ?thesis by blast
next
  case False
  then obtain k where "k < nat len" "rand_src w k = None" by blast
  from timestamp_to_slug_fail[OF assms this] show ?thesis by blast
qed

lemma length_letters: "length (letters digits r i j) = j - i"
  by (simp add: letters_def)

lemma timestamp_to_slug_length:
  assumes "valid_length len" and "fst (timestamp_to_slug ts len w) = Inr slug"
  shows "int (length slug) = len + 1"
proof -
  note h = valid_length_half[OF assms(1)]
  from timestamp_to_slug_ok[OF assms(1) timestamp_to_slug_Inr[OF assms], of ts] assms(2)
  have "slug = letters (digit_string ts len) (\<lambda>k. the (rand_src w k)) 0 (nat len div 2) @
          CHR ''-'' #
          letters (digit_string ts len) (\<lambda>k. the (rand_src w k)) (nat len div 2) (nat len)"
    by simp
  then have "length slug = nat len div 2 + 1 + (nat len - nat len div 2)"
    by (simp add: length_letters)
  with h show ?thesis by simp
qed

lemma timestamp_to_slug_shape:
  assumes "valid_length len" and "fst (timestamp_to_slug ts len w) = Inr slug"
  shows "slug = letters (digit_string ts len) (\<lambda>k. the (rand_src w k)) 0 (nat len div 2) @
          CHR ''-'' #
          letters (digit_string ts len) (\<lambda>k. the (rand_src w k)) (nat len div 2) (nat len)"
  using timestamp_to_slug_ok[OF assms(1) timestamp_to_slug_Inr[OF assms], of ts] assms(2)
  by simp

lemma gen_unique_slug_valid:
  assumes "valid_length len"
  shows "gen_unique_slug (Some len) w =
     timestamp_to_slug (fst (get_timestamp_value len w)) len (snd (get_timestamp_value len w))"
  using assms by (auto simp: gen_unique_slug_def valid_length_def split: prod.split)

lemma rand_src_get_timestamp_value: "rand_src (snd (get_timestamp_value len w)) = rand_src w"
  by (simp add: get_timestamp_value_def clock_gettime_def Let_def)

lemma gen_unique_slug_Inr:
  assumes "valid_length len" and "fst (gen_unique_slug (Some len) w) = Inr slug"
  obtains w1 where "fst (timestamp_to_slug (fst (get_timestamp_value len w)) len w1) = Inr slug"
    and "rand_src w1 = rand_src w"
  using assms(2) unfolding gen_unique_slug_valid[OF assms(1)]
  by (rule that) (rule rand_src_get_timestamp_value)

lemma gen_unique_slug_invalid:
  "\<not> valid_length len \<Longrightarrow> gen_unique_slug (Some len) w = (Inl invalid_parameter, w)"
  by (simp add: gen_unique_slug_def valid_length_def)

lemma gen_unique_slug_null: "gen_unique_slug None w = gen_unique_slug (Some 16) w"
  by (simp add: gen_unique_slug_def)

lemma get_timestamp_value_trace:
  "trace (snd (get_timestamp_value len w)) = trace w @ [ClockGettime, SwitchArm (switch_precision len)]"
  by (simp add: get_timestamp_value_def clock_gettime_def Let_def)

lemma gen_unique_slug_trace:
  assumes "valid_length len"
  shows "\<exists>m. trace (snd (gen_unique_slug (Some len) w)) =
           trace w @ [ClockGettime, SwitchArm (switch_precision len)] @ replicate m StrongRandom"
  unfolding gen_unique_slug_valid[OF assms] timestamp_to_slug_def Let_def
  using slug_loop_trace[where w = "snd (get_timestamp_value len w)"]
  by (simp add: get_timestamp_value_trace)

lemma valid_length_arm: "valid_length len \<Longrightarrow> switch_precision len \<noteq> CaseDefault"
  by (auto simp: valid_length_def switch_precision_def)

lemma get_timestamp_value_eq:
  "valid_length len \<Longrightarrow>
     fst (get_timestamp_value len w) = word_of_int (spec_timestamp_value len (clock w))"
  by (auto simp: valid_length_def get_timestamp_value_def clock_gettime_def switch_precision_def
      spec_timestamp_value_def Let_def)

lemma get_timestamp_value_sec:
  "fst (get_timestamp_value 10 w) = word_of_int (tv_sec (clock w))"
  by (simp add: get_timestamp_value_def clock_gettime_def switch_precision_def Let_def)

subsection \<open>Buckets and the letters of a slug\<close>

lemma below_ten_cases:
  assumes "d < (10::nat)"
  obtains "d = 0" | "d = 1" | "d = 2" | "d = 3" | "d = 4"
    | "d = 5" | "d = 6" | "d = 7" | "d = 8" | "d = 9"
  using assms by atomize_elim arith

lemma bucket_sizes_length:
  "d < 10 \<Longrightarrow> bucket_sizes ! d = int (length (digit_buckets ! d)) \<and> 0 < bucket_sizes ! d"
  by (erule below_ten_cases) (simp_all add: bucket_sizes_def digit_buckets_def)

lemma hyphen_not_in_bucket: "d < 10 \<Longrightarrow> CHR ''-'' \<notin> set (digit_buckets ! d)"
  by (erule below_ten_cases) (simp_all add: digit_buckets_def)

lemma digit_value_less: "isdigit c \<Longrightarrow> digit_value c < 10"
  by (auto simp: isdigit_def digit_value_def)

lemma bucket_letter_eq:
  "bucket_letter c rnd =
     digit_buckets ! digit_value c ! nat (uint rnd mod bucket_sizes ! digit_value c)"
  by (simp add: bucket_letter_def digit_value_def Let_def)

lemma bucket_letter_mem:
  assumes "isdigit c"
  shows "bucket_letter c rnd \<in> set (digit_buckets ! digit_value c)"
proof -
  let ?d = "digit_value c"
  from assms have d: "?d < 10" by (rule digit_value_less)
  note s = bucket_sizes_length[OF d]
  from s have s2: "0 < bucket_sizes ! ?d" by blast
  have "0 \<le> uint rnd mod bucket_sizes ! ?d"
    by (rule pos_mod_sign) (rule s2)
  moreover have "uint rnd mod bucket_sizes ! ?d < bucket_sizes ! ?d"
    by (rule pos_mod_bound) (rule s2)
  ultimately have "nat (uint rnd mod bucket_sizes ! ?d) < length (digit_buckets ! ?d)"
    using s by linarith
  then show ?thesis unfolding bucket_letter_eq by (rule nth_mem)
qed

lemma bucket_letter_not_hyphen: "isdigit c \<Longrightarrow> bucket_letter c rnd \<noteq> CHR ''-''"
  using bucket_letter_mem[of c rnd] hyphen_not_in_bucket[OF digit_value_less, of c] by auto

lemma letters_no_hyphen:
  assumes "list_all isdigit digits" and "j \<le> length digits"
  shows "CHR ''-'' \<notin> set (letters digits r i j)"
proof
  assume "CHR ''-'' \<in> set (letters digits r i j)"
  then obtain k where k: "k < j" and eq: "bucket_letter (digits ! k) (r k) = CHR ''-''"
    by (auto simp: letters_def)
  from k assms have "isdigit (digits ! k)" by (simp add: list_all_length)
  from bucket_letter_not_hyphen[OF this] eq show False by blast
qed

lemma letters_nth: "k < j - i \<Longrightarrow> letters digits r i j ! k = bucket_letter (digits ! (i + k)) (r (i + k))"
  by (simp add: letters_def)

lemma nat_uint_mod: "0 < n \<Longrightarrow> nat (uint (r :: 8 word) mod n) = unat r mod nat n"
  by (simp add: nat_mod_distrib)

lemma separator_facts:
  assumes "valid_length len" and "fst (timestamp_to_slug ts len w) = Inr slug"
  shows "slug ! nat (len sdiv 2) = CHR ''-''"
    and "count_list slug (CHR ''-'') = 1"
    and "hd slug \<noteq> CHR ''-''" and "last slug \<noteq> CHR ''-''"
    and "\<forall>j<length slug. (slug ! j = CHR ''-'') = (j = nat (len sdiv 2))"
proof -
  note h = valid_length_half[OF assms(1)]
  let ?ds = "digit_string ts len"
  let ?r = "\<lambda>k. the (rand_src w k)"
  let ?a = "letters ?ds ?r 0 (nat len div 2)"
  let ?b = "letters ?ds ?r (nat len div 2) (nat len)"
  have slug: "slug = ?a @ CHR ''-'' # ?b" by (rule timestamp_to_slug_shape[OF assms])
  have dig: "list_all isdigit ?ds" by (rule digit_string_isdigit[OF h(4)])
  have len: "length ?ds = nat len" by (rule length_digit_string[OF h(4,5)])
  have na: "CHR ''-'' \<notin> set ?a" by (rule letters_no_hyphen[OF dig]) (use h len in simp)
  have nb: "CHR ''-'' \<notin> set ?b" by (rule letters_no_hyphen[OF dig]) (use len in simp)
  have la: "length ?a = nat len div 2" by (simp add: length_letters)
  have lb: "length ?b = nat len - nat len div 2" by (simp add: length_letters)
  have half: "nat (len sdiv 2) = nat len div 2" using h(1) by simp
  show "slug ! nat (len sdiv 2) = CHR ''-''"
    unfolding slug half using la by (simp add: nth_append)
  show "count_list slug (CHR ''-'') = 1"
    unfolding slug using na nb by simp
  have "?a \<noteq> []" using la h(2) by auto
  then have "hd slug = hd ?a" and "hd ?a \<in> set ?a" unfolding slug by simp_all
  with na show "hd slug \<noteq> CHR ''-''" by auto
  have "?b \<noteq> []" using lb h(3) by auto
  then have "last slug = last ?b" and "last ?b \<in> set ?b" unfolding slug by simp_all
  with nb show "last slug \<noteq> CHR ''-''" by auto
  show "\<forall>j<length slug. (slug ! j = CHR ''-'') = (j = nat (len sdiv 2))"
  proof (intro allI impI)
    fix j assume j: "j < length slug"
    have ls: "length slug = Suc (length ?a + length ?b)" by (subst slug) simp
    have nth: "slug ! j = (if j < length ?a then ?a ! j
                 else if j = length ?a then CHR ''-'' else ?b ! (j - Suc (length ?a)))"
      by (subst slug) (simp add: nth_append nth_Cons')
    consider "j < length ?a" | "j = length ?a" | "length ?a < j" by linarith
    then show "(slug ! j = CHR ''-'') = (j = nat (len sdiv 2))"
    proof cases
      case 1
      then have "?a ! j \<in> set ?a" by (rule nth_mem)
      with na have "?a ! j \<noteq> CHR ''-''" by metis
      with 1 nth show ?thesis by (simp add: half la)
    next
      case 2
      with nth show ?thesis by (simp add: half la)
    next
      case 3
      with j ls have "j - Suc (length ?a) < length ?b" by linarith
      then have "?b ! (j - Suc (length ?a)) \<in> set ?b" by (rule nth_mem)
      with nb have "?b ! (j - Suc (length ?a)) \<noteq> CHR ''-''" by metis
      with 3 nth show ?thesis by (simp add: half la)
    qed
  qed
qed

lemma slug_letter_nth:
  assumes "valid_length len" and "fst (timestamp_to_slug ts len w) = Inr slug" and "i < nat len"
  shows "slug ! (if i < nat len div 2 then i else i + 1) =
           bucket_letter (digit_string ts len ! i) (the (rand_src w i))"
proof -
  note h = valid_length_half[OF assms(1)]
  let ?ds = "digit_string ts len"
  let ?r = "\<lambda>k. the (rand_src w k)"
  let ?a = "letters ?ds ?r 0 (nat len div 2)"
  let ?b = "letters ?ds ?r (nat len div 2) (nat len)"
  have slug: "slug = ?a @ CHR ''-'' # ?b" by (rule timestamp_to_slug_shape[OF assms(1,2)])
  have la: "length ?a = nat len div 2" by (simp add: length_letters)
  show ?thesis
  proof (cases "i < nat len div 2")
    case True
    then show ?thesis unfolding slug using la by (simp add: nth_append letters_nth)
  next
    case False
    then obtain m where m: "i = nat len div 2 + m" using le_Suc_ex not_less by blast
    with assms(3) have "m < nat len - nat len div 2" by simp
    then have "?b ! m = bucket_letter (?ds ! i) (?r i)" unfolding m by (rule letters_nth)
    moreover have "slug ! (i + 1) = ?b ! m" unfolding slug m using la by (simp add: nth_append)
    ultimately show ?thesis using False by simp
  qed
qed

lemma slug_letter_mem:
  assumes "valid_length len" and "fst (timestamp_to_slug ts len w) = Inr slug" and "i < nat len"
  shows "slug ! (if i < nat len div 2 then i else i + 1) \<in>
           set (digit_buckets ! digit_value (digit_string ts len ! i))"
proof -
  note h = valid_length_half[OF assms(1)]
  have "i < length (digit_string ts len)" using assms(3) length_digit_string[OF h(4,5)] by simp
  with digit_string_isdigit[OF h(4), of ts] have "isdigit (digit_string ts len ! i)"
    by (simp add: list_all_length)
  from bucket_letter_mem[OF this] show ?thesis
    unfolding slug_letter_nth[OF assms] .
qed

subsection \<open>Decoding\<close>

lemma buckets_distinct: "distinct (concat digit_buckets)"
  by (simp add: digit_buckets_def)

lemma buckets_52: "length (concat digit_buckets) = 52"
  by (simp add: digit_buckets_def)

lemma buckets_disjoint:
  assumes "d < 10" and "e < 10" and "d \<noteq> e"
  shows "set (digit_buckets ! d) \<inter> set (digit_buckets ! e) = {}"
proof -
  have len: "length digit_buckets = 10" by (simp add: digit_buckets_def)
  have dd: "distinct digit_buckets" by (simp add: digit_buckets_def)
  from assms have ne: "digit_buckets ! d \<noteq> digit_buckets ! e"
    by (simp add: nth_eq_iff_index_eq[OF dd] len)
  from assms have mem: "digit_buckets ! d \<in> set digit_buckets" "digit_buckets ! e \<in> set digit_buckets"
    by (simp_all add: len)
  from buckets_distinct
  have "\<forall>ys zs. ys \<in> set digit_buckets \<and> zs \<in> set digit_buckets \<and> ys \<noteq> zs \<longrightarrow> set ys \<inter> set zs = {}"
    by (simp only: distinct_concat_iff) blast
  with ne mem show ?thesis by blast
qed

lemma find_unique:
  "x \<in> set xs \<Longrightarrow> P x \<Longrightarrow> \<forall>y\<in>set xs. P y \<longrightarrow> y = x \<Longrightarrow> find P xs = Some x"
proof (induction xs)
  case Nil
  then show ?case by simp
next
  case (Cons a xs)
  show ?case
  proof (cases "P a")
    case True
    with Cons.prems(3) have "a = x" by simp
    with True show ?thesis by simp
  next
    case False
    with Cons.prems(1,2) have "x \<in> set xs" by auto
    moreover from Cons.prems(3) have "\<forall>y\<in>set xs. P y \<longrightarrow> y = x" by simp
    ultimately have "find P xs = Some x" using Cons.prems(2) by (intro Cons.IH)
    with False show ?thesis by simp
  qed
qed

lemma find_bucket:
  assumes "d < 10" and "c \<in> set (digit_buckets ! d)"
  shows "find (\<lambda>d. c \<in> set (digit_buckets ! d)) [0..<10] = Some d"
proof (rule find_unique)
  show "d \<in> set [0..<10]" using assms(1) by simp
  show "c \<in> set (digit_buckets ! d)" by (rule assms(2))
  show "\<forall>y\<in>set [0..<10]. c \<in> set (digit_buckets ! y) \<longrightarrow> y = d"
  proof (intro ballI impI)
    fix y assume "y \<in> set [0..<10]" and c: "c \<in> set (digit_buckets ! y)"
    then have y: "y < 10" by simp
    show "y = d"
    proof (rule ccontr)
      assume "y \<noteq> d"
      from buckets_disjoint[OF y assms(1) this] c assms(2) show False by blast
    qed
  qed
qed

lemma char_of_digit_value: "isdigit c \<Longrightarrow> char_of (48 + digit_value c) = c"
proof -
  assume "isdigit c"
  then have le: "48 \<le> (of_char c :: nat)" by (simp add: isdigit_def)
  then have "nat (int (of_char c) - 48) = of_char c - 48" by linarith
  with le have "48 + digit_value c = of_char c" by (simp only: digit_value_def)
  then show ?thesis by (simp only: char_of_char)
qed

lemma decode_bucket_letter: "isdigit c \<Longrightarrow> decode_char (bucket_letter c rnd) = c"
proof -
  assume c: "isdigit c"
  have f: "find (\<lambda>d. bucket_letter c rnd \<in> set (digit_buckets ! d)) [0..<10] = Some (digit_value c)"
    by (rule find_bucket[OF digit_value_less[OF c] bucket_letter_mem[OF c]])
  show ?thesis
    by (simp only: decode_char_def f option.case char_of_digit_value[OF c])
qed

lemma decode_slug_append: "decode_slug (xs @ ys) = decode_slug xs @ decode_slug ys"
  by (simp add: decode_slug_def)

lemma decode_slug_piece:
  "isdigit (digits ! k) \<Longrightarrow> decode_slug (slug_piece digits half r k) = [digits ! k]"
  by (simp add: decode_slug_def slug_piece_def bucket_letter_not_hyphen decode_bucket_letter)

lemma decode_slug_pieces:
  "\<forall>k\<in>set ks. isdigit (digits ! k) \<Longrightarrow>
     decode_slug (concat (map (slug_piece digits half r) ks)) = map ((!) digits) ks"
proof (induction ks)
  case Nil
  show ?case by (simp add: decode_slug_def)
next
  case (Cons k ks)
  then show ?case by (simp add: decode_slug_append decode_slug_piece)
qed

lemma map_nth_take: "n \<le> length xs \<Longrightarrow> map ((!) xs) [0..<n] = take n xs"
  by (rule nth_equalityI) simp_all

lemma decode_slug_loop:
  assumes "list_all isdigit digits" and "nat len \<le> length digits"
    and "fst (slug_loop digits len half 0 [] w) = Inr slug"
  shows "decode_slug slug = take (nat len) digits"
proof -
  have ok: "\<forall>k. 0 \<le> k \<and> int k < len \<longrightarrow> k < length digits \<and> isdigit (digits ! k)"
  proof (intro allI impI)
    fix k assume "0 \<le> k \<and> int k < len"
    then have "k < nat len" by linarith
    with assms(1,2) show "k < length digits \<and> isdigit (digits ! k)"
      by (simp add: list_all_length)
  qed
  have r: "\<forall>k. int (0 + k) < len \<longrightarrow> rand_src w k = Some (the (rand_src w (0 + k)))"
  proof (intro allI impI)
    fix k assume k: "int (0 + k) < len"
    have "rand_src w k \<noteq> None"
    proof
      assume "rand_src w k = None"
      from slug_loop_fail[OF ok k this, of half "[]"] assms(3) show False by simp
    qed
    then show "rand_src w k = Some (the (rand_src w (0 + k)))" by simp
  qed
  from slug_loop_ok[OF ok r, of half "[]"] assms(3)
  have "slug = concat (map (slug_piece digits half (\<lambda>k. the (rand_src w k))) [0..<nat len])"
    by simp
  moreover have "\<forall>k\<in>set [0..<nat len]. isdigit (digits ! k)"
    using assms(1,2) by (simp add: list_all_length)
  ultimately have "decode_slug slug = map ((!) digits) [0..<nat len]"
    by (simp only: decode_slug_pieces)
  then show ?thesis by (simp only: map_nth_take[OF assms(2)])
qed

lemma decode_timestamp_to_slug:
  assumes "valid_length len" and "fst (timestamp_to_slug ts len w) = Inr slug"
  shows "decode_slug slug = digit_string ts len"
proof -
  note h = valid_length_half[OF assms(1)]
  have n: "nat len \<le> length (snprintf_0llu 20 len ts)" by (rule length_snprintf_0llu[OF h(4,5)])
  from assms(2) have "fst (slug_loop (snprintf_0llu 20 len ts) len (len sdiv 2) 0 [] w) = Inr slug"
    by (simp add: timestamp_to_slug_def Let_def)
  from decode_slug_loop[OF snprintf_0llu_isdigit[OF h(4)] n this]
  show ?thesis by (simp add: digit_string_def)
qed

lemma letter_unique_bucket:
  assumes "valid_length len" and "fst (timestamp_to_slug ts len w) = Inr slug"
    and "c \<in> set slug" and "c \<noteq> CHR ''-''"
  shows "\<exists>!d. d < 10 \<and> c \<in> set (digit_buckets ! d)"
proof -
  note h = valid_length_half[OF assms(1)]
  from assms(3) obtain j where j: "j < length slug" and c: "slug ! j = c"
    by (auto simp: in_set_conv_nth)
  from separator_facts(5)[OF assms(1,2)] j c assms(4) have ne: "j \<noteq> nat len div 2"
    using h(1) by auto
  have l: "length slug = nat len + 1" using timestamp_to_slug_length[OF assms(1,2)] h(4) by linarith
  define i where "i = (if j < nat len div 2 then j else j - 1)"
  have i: "i < nat len" and p: "(if i < nat len div 2 then i else i + 1) = j"
    using j l ne by (auto simp: i_def)
  from slug_letter_mem[OF assms(1,2) i] have m: "c \<in> set (digit_buckets ! digit_value (digit_string ts len ! i))"
    by (simp only: p c)
  have "i < length (digit_string ts len)" using i length_digit_string[OF h(4,5)] by simp
  with digit_string_isdigit[OF h(4), of ts] have "isdigit (digit_string ts len ! i)"
    by (simp add: list_all_length)
  then have d: "digit_value (digit_string ts len ! i) < 10" by (rule digit_value_less)
  show ?thesis
  proof (rule ex1I[of _ "digit_value (digit_string ts len ! i)"])
    show "digit_value (digit_string ts len ! i) < 10 \<and> c \<in> set (digit_buckets ! digit_value (digit_string ts len ! i))"
      using d m by blast
  next
    fix e assume e: "e < 10 \<and> c \<in> set (digit_buckets ! e)"
    show "e = digit_value (digit_string ts len ! i)"
    proof (rule ccontr)
      assume "e \<noteq> digit_value (digit_string ts len ! i)"
      from buckets_disjoint[OF _ d this] e m show False by blast
    qed
  qed
qed

subsection \<open>Runs on concrete inputs\<close>

text \<open>
  The definitions are evaluated by rewriting; \<open>dec_digits\<close> and \<open>slug_loop\<close> unfold as far
  as their conditions are decided.
\<close>

lemmas eval_simps = dec_digits_lt10 dec_digits_ge10 format_0llu_def snprintf_0llu_def
  timestamp_to_slug_def slug_loop.simps pg_strong_random_def digit_buckets_def bucket_sizes_def
  gen_unique_slug_def get_timestamp_value_def clock_gettime_def switch_precision_def Let_def
  signed_divide_int_def w_ok_def w_fail_def random_failed_def invalid_parameter_def

lemma run_max_19:
  "fst (timestamp_to_slug 18446744073709551615 19 w_ok) = Inr ''rcfhKzsfY-kpJRMdgwlr''"
  by (simp add: eval_simps)

lemma digit_string_sec_10: "digit_string 1700000000 10 = ''1700000000''"
  by (simp add: digit_string_def eval_simps)

lemma run_sec_10: "fst (timestamp_to_slug 1700000000 10 w_ok) = Inr ''rJYqW-eRtYq''"
  by (simp add: eval_simps)

lemma run_gen_10: "fst (gen_unique_slug (Some 10) w_ok) = Inr ''rJYqW-eRtYq''"
  by (simp add: eval_simps)

lemma run_fail_10:
  "fst (gen_unique_slug (Some 10) w_fail) =
     Inl (Ereport ERRCODE_INTERNAL_ERROR ''pg_strong_random failed'' None)"
  "trace (snd (gen_unique_slug (Some 10) w_fail)) =
     [ClockGettime, SwitchArm Case10, StrongRandom, StrongRandom, StrongRandom, StrongRandom]"
  by (simp_all add: eval_simps)

lemma run_null_16: "fst (gen_unique_slug None w_ok) = Inr ''rJYqWeRt-YqwuOhdZ''"
  by (simp add: eval_simps)

lemma run_13_trace:
  "trace (snd (gen_unique_slug (Some 13) w_ok)) =
     [ClockGettime, SwitchArm Case13, StrongRandom, StrongRandom, StrongRandom, StrongRandom,
      StrongRandom, StrongRandom, StrongRandom, StrongRandom, StrongRandom, StrongRandom,
      StrongRandom, StrongRandom, StrongRandom]"
  by (simp add: eval_simps)

lemma run_decode: "decode_slug ''rJYqW-eRtYq'' = ''1700000000''"
  by (simp add: decode_slug_def decode_char_def digit_buckets_def upt_rec char_of_def bit_Suc_0_iff)

lemma run_loop_42: "fst (slug_loop ''42'' 2 1 0 [] w_ok) = Inr ''G-u''"
  by (simp add: eval_simps)

lemma run_decode_42: "decode_slug ''G-u'' = ''42''"
  by (simp add: decode_slug_def decode_char_def digit_buckets_def upt_rec char_of_def bit_Suc_0_iff)

lemma dec_11: "dec_digits 12345678901 = ''12345678901''"
  by (simp add: eval_simps)

lemma digit_string_11: "digit_string 12345678901 10 = ''1234567890''"
  by (simp add: digit_string_def eval_simps)

lemma low_11: "spec_low_order_digits 12345678901 10 = ''2345678901''"
  by (simp add: spec_low_order_digits_def eval_simps)

lemma run_11: "fst (timestamp_to_slug 12345678901 10 w_ok) = Inr ''ruOhd-ZJbMq''"
  by (simp add: eval_simps)

lemma run_decode_11: "decode_slug ''ruOhd-ZJbMq'' = ''1234567890''"
  by (simp add: decode_slug_def decode_char_def digit_buckets_def upt_rec char_of_def bit_Suc_0_iff)

section \<open>The claims\<close>

subsection \<open>C1: the length of a slug\<close>

text \<open>
  Claim C1. For every valid length \<open>L\<close> (10, 13, 16 or 19) and every timestamp value, also
  one whose decimal representation needs more than \<open>L\<close> digits, the slug that is returned
  has exactly \<open>L + 1\<close> characters. This holds of every slug returned by
  \<^verbatim>\<open>timestamp_to_slug\<close> (for any 64-bit timestamp) and by \<^verbatim>\<open>gen_unique_slug\<close> (for any
  clock), and a slug is returned whenever the \<open>L\<close> random draws succeed.
\<close>

theorem slug_length:
  assumes "valid_length L"
  shows "(fst (timestamp_to_slug ts L w) = Inr slug \<longrightarrow> int (length slug) = L + 1) \<and>
         (fst (gen_unique_slug (Some L) w) = Inr slug \<longrightarrow> int (length slug) = L + 1) \<and>
         ((\<forall>k<nat L. rand_src w k \<noteq> None) \<longrightarrow>
            (\<exists>s. fst (timestamp_to_slug ts L w) = Inr s \<and> int (length s) = L + 1) \<and>
            (\<exists>s. fst (gen_unique_slug (Some L) w) = Inr s \<and> int (length s) = L + 1))"
proof (intro conjI impI)
  assume "fst (timestamp_to_slug ts L w) = Inr slug"
  then show "int (length slug) = L + 1" by (rule timestamp_to_slug_length[OF assms])
next
  assume "fst (gen_unique_slug (Some L) w) = Inr slug"
  then show "int (length slug) = L + 1"
    unfolding gen_unique_slug_valid[OF assms] by (rule timestamp_to_slug_length[OF assms])
next
  assume r: "\<forall>k<nat L. rand_src w k \<noteq> None"
  from timestamp_to_slug_ok[OF assms r, of ts] timestamp_to_slug_length[OF assms, of ts w]
  show "\<exists>s. fst (timestamp_to_slug ts L w) = Inr s \<and> int (length s) = L + 1" by simp
next
  assume r: "\<forall>k<nat L. rand_src w k \<noteq> None"
  let ?w1 = "snd (get_timestamp_value L w)"
  let ?t = "fst (get_timestamp_value L w)"
  from r have r1: "\<forall>k<nat L. rand_src ?w1 k \<noteq> None" by (simp add: rand_src_get_timestamp_value)
  from timestamp_to_slug_ok[OF assms r1, of ?t] timestamp_to_slug_length[OF assms, of ?t ?w1]
  show "\<exists>s. fst (gen_unique_slug (Some L) w) = Inr s \<and> int (length s) = L + 1"
    unfolding gen_unique_slug_valid[OF assms] by simp
qed

text \<open>
  At length 19 with the largest 64-bit timestamp, whose decimal representation has 20
  digits, and with the clock of \<open>w_ok\<close>.
\<close>

theorem slug_length_witness:
  "valid_length 19 \<and> \<not> (\<exists>k<nat 19. rand_src w_ok k = None) \<and>
   fst (timestamp_to_slug 18446744073709551615 19 w_ok) = Inr ''rcfhKzsfY-kpJRMdgwlr'' \<and>
   int (length ''rcfhKzsfY-kpJRMdgwlr'') = 19 + 1"
proof -
  have v: "valid_length 19" by (simp add: valid_length_def)
  have r: "\<forall>k<nat 19. rand_src w_ok k \<noteq> None" by (simp add: w_ok_def)
  from slug_length[OF v, of 18446744073709551615 w_ok "''rcfhKzsfY-kpJRMdgwlr''"] v r run_max_19
  show ?thesis by simp
qed

subsection \<open>C2: the separator\<close>

text \<open>
  Claim C2. For every valid length \<open>L\<close> and every timestamp, a slug that is returned contains
  the separator \<^verbatim>\<open>-\<close> exactly once, at index \<open>L div 2\<close>, and neither as its first
  nor as its last character. (For the four valid lengths the truncating division of C
  and \<open>div\<close> agree, and \<open>L div 2\<close> lies strictly between 0 and \<open>L\<close>.)
\<close>

theorem separator_once:
  assumes "valid_length L"
    and "fst (timestamp_to_slug ts L w) = Inr slug \<or> fst (gen_unique_slug (Some L) w) = Inr slug"
  shows "slug ! nat (L div 2) = CHR ''-'' \<and> count_list slug (CHR ''-'') = 1 \<and>
         (\<forall>j<length slug. (slug ! j = CHR ''-'') = (j = nat (L div 2))) \<and>
         int (length slug) = L + 1 \<and> slug ! 0 \<noteq> CHR ''-'' \<and> slug ! nat L \<noteq> CHR ''-'' \<and>
         0 < L div 2 \<and> L div 2 < L \<and> L sdiv 2 = L div 2"
proof -
  from assms obtain t w1 where run: "fst (timestamp_to_slug t L w1) = Inr slug"
    using gen_unique_slug_Inr[OF assms(1)] by blast
  note h = valid_length_half[OF assms(1)]
  note s = separator_facts[OF assms(1) run]
  have len: "int (length slug) = L + 1" by (rule timestamp_to_slug_length[OF assms(1) run])
  have half: "L sdiv 2 = L div 2" using h(1,4) by (simp add: zdiv_int)
  have pos: "0 < L div 2" "L div 2 < L" using h half by linarith+
  have "0 < length slug" "nat L < length slug" using len h(4) by linarith+
  with s(5) have "(slug ! 0 = CHR ''-'') = (0 = nat (L sdiv 2))"
    and "(slug ! nat L = CHR ''-'') = (nat L = nat (L sdiv 2))" by blast+
  with pos half have "slug ! 0 \<noteq> CHR ''-''" "slug ! nat L \<noteq> CHR ''-''" by simp_all
  with s(1,2,5) len pos half show ?thesis by simp
qed

text \<open>At length 10, with the clock and the random bytes of \<open>w_ok\<close>.\<close>

theorem separator_once_witness:
  "valid_length 10 \<and> fst (gen_unique_slug (Some 10) w_ok) = Inr ''rJYqW-eRtYq'' \<and>
   ''rJYqW-eRtYq'' ! nat (10 div 2) = CHR ''-'' \<and> count_list ''rJYqW-eRtYq'' (CHR ''-'') = 1"
proof -
  have v: "valid_length 10" by (simp add: valid_length_def)
  from separator_once[OF v, of 1700000000 w_ok "''rJYqW-eRtYq''"] v run_gen_10
  show ?thesis by blast
qed

subsection \<open>C3: each letter comes from the bucket of its digit\<close>

text \<open>
  Claim C3. For every position \<open>i\<close> of the zero-padded digit string, with digit \<open>d\<close> there
  and random byte \<open>r\<close> drawn for it, the letter of the slug for that position (index \<open>i\<close>
  before the separator, \<open>i + 1\<close> after it) is \<open>digit_buckets[d][r mod size(d)]\<close>, where
  the ten buckets are \<^verbatim>\<open>qWeRtY QwErTy uIoPa UiOpA sDfGh SdFgH jKlZx JkLzX cVbNm CvBnM\<close>, of
  sizes 6, 6, 5, 5, 5, 5, 5, 5, 5, 5, and \<^verbatim>\<open>bucket_sizes\<close> holds exactly these sizes.
\<close>

theorem letter_from_bucket:
  assumes "valid_length L" and "i < nat L"
  shows "(fst (timestamp_to_slug ts L w) = Inr slug \<longrightarrow>
            (let d = digit_value (digit_string ts L ! i) in
             d < 10 \<and>
             (\<exists>r. rand_src w i = Some r \<and>
                  slug ! (if i < nat L div 2 then i else i + 1) =
                    digit_buckets ! d ! (unat r mod nat (bucket_sizes ! d))))) \<and>
         (fst (gen_unique_slug (Some L) w) = Inr slug \<longrightarrow>
            (let d = digit_value (digit_string (fst (get_timestamp_value L w)) L ! i) in
             d < 10 \<and>
             (\<exists>r. rand_src w i = Some r \<and>
                  slug ! (if i < nat L div 2 then i else i + 1) =
                    digit_buckets ! d ! (unat r mod nat (bucket_sizes ! d))))) \<and>
         digit_buckets =
           [''qWeRtY'', ''QwErTy'', ''uIoPa'', ''UiOpA'', ''sDfGh'',
            ''SdFgH'', ''jKlZx'', ''JkLzX'', ''cVbNm'', ''CvBnM''] \<and>
         map length digit_buckets = [6, 6, 5, 5, 5, 5, 5, 5, 5, 5] \<and>
         map nat bucket_sizes = map length digit_buckets"
proof -
  have main: "let d = digit_value (digit_string t L ! i) in
             d < 10 \<and>
             (\<exists>r. rand_src v i = Some r \<and>
                  slug ! (if i < nat L div 2 then i else i + 1) =
                    digit_buckets ! d ! (unat r mod nat (bucket_sizes ! d)))"
    if run: "fst (timestamp_to_slug t L v) = Inr slug" for t v
  proof -
    note h = valid_length_half[OF assms(1)]
    let ?c = "digit_string t L ! i"
    have "i < length (digit_string t L)" using assms(2) length_digit_string[OF h(4,5)] by simp
    with digit_string_isdigit[OF h(4), of t] have dig: "isdigit ?c" by (simp add: list_all_length)
    then have d: "digit_value ?c < 10" by (rule digit_value_less)
    from timestamp_to_slug_Inr[OF assms(1) run] assms(2)
    obtain r where r: "rand_src v i = Some r" by auto
    from bucket_sizes_length[OF d] have p: "0 < bucket_sizes ! digit_value ?c" by blast
    have "slug ! (if i < nat L div 2 then i else i + 1) = bucket_letter ?c (the (rand_src v i))"
      by (rule slug_letter_nth[OF assms(1) run assms(2)])
    also have "\<dots> = digit_buckets ! digit_value ?c !
        (unat r mod nat (bucket_sizes ! digit_value ?c))"
      by (simp only: bucket_letter_eq r option.sel nat_uint_mod[OF p])
    finally show ?thesis using d r by (simp add: Let_def)
  qed
  have a: "fst (timestamp_to_slug ts L w) = Inr slug \<longrightarrow>
            (let d = digit_value (digit_string ts L ! i) in
             d < 10 \<and>
             (\<exists>r. rand_src w i = Some r \<and>
                  slug ! (if i < nat L div 2 then i else i + 1) =
                    digit_buckets ! d ! (unat r mod nat (bucket_sizes ! d))))"
    using main by blast
  have b: "fst (gen_unique_slug (Some L) w) = Inr slug \<longrightarrow>
            (let d = digit_value (digit_string (fst (get_timestamp_value L w)) L ! i) in
             d < 10 \<and>
             (\<exists>r. rand_src w i = Some r \<and>
                  slug ! (if i < nat L div 2 then i else i + 1) =
                    digit_buckets ! d ! (unat r mod nat (bucket_sizes ! d))))"
  proof
    assume "fst (gen_unique_slug (Some L) w) = Inr slug"
    then obtain w1 where "fst (timestamp_to_slug (fst (get_timestamp_value L w)) L w1) = Inr slug"
      and rw: "rand_src w1 = rand_src w"
      by (rule gen_unique_slug_Inr[OF assms(1)])
    from main[OF this(1)] show "let d = digit_value (digit_string (fst (get_timestamp_value L w)) L ! i) in
             d < 10 \<and>
             (\<exists>r. rand_src w i = Some r \<and>
                  slug ! (if i < nat L div 2 then i else i + 1) =
                    digit_buckets ! d ! (unat r mod nat (bucket_sizes ! d)))"
      by (simp add: rw)
  qed
  have c: "digit_buckets =
           [''qWeRtY'', ''QwErTy'', ''uIoPa'', ''UiOpA'', ''sDfGh'',
            ''SdFgH'', ''jKlZx'', ''JkLzX'', ''cVbNm'', ''CvBnM'']"
    by (simp add: digit_buckets_def)
  have d: "map length digit_buckets = [6, 6, 5, 5, 5, 5, 5, 5, 5, 5]"
    by (simp add: digit_buckets_def)
  have e: "map nat bucket_sizes = map length digit_buckets"
    by (simp add: digit_buckets_def bucket_sizes_def)
  from a b c d e show ?thesis by blast
qed

text \<open>Position 1 of the digit string \<^verbatim>\<open>1700000000\<close>: digit 7, random byte 10, letter \<^verbatim>\<open>J\<close>.\<close>

theorem letter_from_bucket_witness:
  "valid_length 10 \<and> (1::nat) < nat 10 \<and>
   fst (timestamp_to_slug 1700000000 10 w_ok) = Inr ''rJYqW-eRtYq'' \<and>
   digit_value (digit_string 1700000000 10 ! 1) = 7 \<and> rand_src w_ok 1 = Some 10 \<and>
   ''rJYqW-eRtYq'' ! 1 = digit_buckets ! 7 ! (unat (10 :: 8 word) mod nat (bucket_sizes ! 7))"
proof -
  have v: "valid_length 10" by (simp add: valid_length_def)
  have i: "(1::nat) < nat 10" by simp
  have d: "digit_value (digit_string 1700000000 10 ! 1) = 7"
    by (simp add: digit_string_sec_10 digit_value_def)
  have r: "rand_src w_ok 1 = Some 10" by (simp add: w_ok_def)
  from letter_from_bucket[OF v i, of 1700000000 w_ok "''rJYqW-eRtYq''"] run_sec_10 d r v
  show ?thesis by (simp add: Let_def)
qed

subsection \<open>C4: the timestamp value\<close>

text \<open>
  Claim C4 says that for every clock reading \<open>(secs, nanos)\<close> and every valid precision
  the timestamp value equals \<open>secs\<close>, \<open>secs * 1000 + nanos / 1000000\<close>,
  \<open>secs * 1000000 + nanos / 1000\<close> or \<open>secs * 1000000000 + nanos\<close>, in exact unsigned
  integer arithmetic with truncating division.

  The arithmetic is that of \<^verbatim>\<open>uint64\<close>, which wraps around: for the clock reading
  \<open>secs = 18446744074\<close>, \<open>nanos = 0\<close> at nanosecond precision the exact value is
  \<open>18446744074000000000\<close>, and the code computes \<open>290448384\<close>.
\<close>

theorem timestamp_value_exact_counterexample:
  "clock w_far = \<lparr>tv_sec = 18446744074, tv_nsec = 0\<rparr> \<and>
   18446744074 * 1000000000 + 0 = (18446744074000000000 :: int) \<and>
   spec_timestamp_value 19 (clock w_far) = 18446744074000000000 \<and>
   uint (fst (get_timestamp_value 19 w_far)) = 290448384 \<and>
   uint (fst (get_timestamp_value 19 w_far)) \<noteq> spec_timestamp_value 19 (clock w_far)"
  by (simp add: w_far_def spec_timestamp_value_def get_timestamp_value_def clock_gettime_def
      switch_precision_def Let_def)

text \<open>
  Claim C4, amended. For every clock reading and every valid precision, the timestamp
  value used for encoding is the value of the specification (\<open>secs\<close>,
  \<open>secs * 1000 + nanos / 1000000\<close>, \<open>secs * 1000000 + nanos / 1000\<close>,
  \<open>secs * 1000000000 + nanos\<close>, with truncating division) reduced modulo \<open>2 ^ 64\<close>; it is
  that value itself whenever it lies between 0 and \<open>2 ^ 64 - 1\<close>.
\<close>

theorem timestamp_value_modulo:
  assumes "valid_length L"
  shows "uint (fst (get_timestamp_value L w)) = spec_timestamp_value L (clock w) mod 2 ^ 64 \<and>
         (0 \<le> spec_timestamp_value L (clock w) \<and> spec_timestamp_value L (clock w) < 2 ^ 64 \<longrightarrow>
            uint (fst (get_timestamp_value L w)) = spec_timestamp_value L (clock w))"
  by (simp add: get_timestamp_value_eq[OF assms] uint_word_of_int)

theorem timestamp_value_modulo_witness:
  "valid_length 13 \<and> spec_timestamp_value 13 (clock w_ok) = 1700000000123 \<and>
   uint (fst (get_timestamp_value 13 w_ok)) = 1700000000123"
proof -
  have v: "valid_length 13" by (simp add: valid_length_def)
  have s: "spec_timestamp_value 13 (clock w_ok) = 1700000000123"
    by (simp add: spec_timestamp_value_def w_ok_def signed_divide_int_def)
  from timestamp_value_modulo[OF v, of w_ok] v s show ?thesis by simp
qed

subsection \<open>C5: rejection of an unsupported length\<close>

text \<open>
  Claim C5 says that for every requested length outside 10, 13, 16, 19 the call fails
  with the invalid-parameter error before any clock read or random draw, that the error
  carries the offending value and a hint listing the four valid values and their units,
  and that an absent (null) argument proceeds with length 16.

  The error does not carry the offending value: message and hint are fixed strings, so
  the reports for the lengths 5 and 12 are equal, and the character \<^verbatim>\<open>5\<close> occurs in
  neither string.
\<close>

theorem error_carries_value_counterexample:
  "fst (gen_unique_slug (Some 5) w_ok) =
     Inl (Ereport ERRCODE_INVALID_PARAMETER_VALUE
            ''slug_length must be 10, 13, 16, or 19''
            (Some ''10=seconds, 13=milliseconds, 16=microseconds, 19=nanoseconds'')) \<and>
   fst (gen_unique_slug (Some 12) w_ok) = fst (gen_unique_slug (Some 5) w_ok) \<and>
   (5 :: int) \<noteq> 12 \<and>
   CHR ''5'' \<notin> set ''slug_length must be 10, 13, 16, or 19'' \<and>
   CHR ''5'' \<notin> set ''10=seconds, 13=milliseconds, 16=microseconds, 19=nanoseconds''"
  by (simp add: gen_unique_slug_def invalid_parameter_def)

text \<open>
  Claim C5, amended. For every requested length outside 10, 13, 16, 19 the call fails
  with the invalid-parameter error and leaves the world as it was (no clock read, no
  random draw); the error carries the fixed message naming the four valid values and the
  fixed hint giving their units, the same for every offending value. An absent argument
  behaves as length 16, which is valid, so that call is not rejected.
\<close>

theorem invalid_length_rejected:
  "(\<not> valid_length len \<longrightarrow>
      gen_unique_slug (Some len) w =
        (Inl (Ereport ERRCODE_INVALID_PARAMETER_VALUE
               ''slug_length must be 10, 13, 16, or 19''
               (Some ''10=seconds, 13=milliseconds, 16=microseconds, 19=nanoseconds'')), w)) \<and>
   gen_unique_slug None w = gen_unique_slug (Some 16) w \<and> valid_length 16 \<and>
   fst (gen_unique_slug None w) \<noteq> Inl invalid_parameter"
proof -
  have v: "valid_length 16" by (simp add: valid_length_def)
  have "fst (gen_unique_slug (Some 16) w) \<noteq> Inl invalid_parameter"
    unfolding gen_unique_slug_valid[OF v]
    using timestamp_to_slug_outcome[OF v, of "fst (get_timestamp_value 16 w)" "snd (get_timestamp_value 16 w)"]
    by (auto simp: random_failed_def invalid_parameter_def)
  with v show ?thesis
    by (simp add: gen_unique_slug_invalid gen_unique_slug_null invalid_parameter_def)
qed

theorem invalid_length_rejected_witness:
  "\<not> valid_length 12 \<and>
   gen_unique_slug (Some 12) w_ok =
     (Inl (Ereport ERRCODE_INVALID_PARAMETER_VALUE
            ''slug_length must be 10, 13, 16, or 19''
            (Some ''10=seconds, 13=milliseconds, 16=microseconds, 19=nanoseconds'')), w_ok) \<and>
   fst (gen_unique_slug None w_ok) = Inr ''rJYqWeRt-YqwuOhdZ''"
  using invalid_length_rejected[of 12 w_ok] run_null_16
  by (simp add: valid_length_def)

subsection \<open>C6: failure of the random source\<close>

text \<open>
  Claim C6. When the draw of a random byte fails at some position, the call ends with the
  error report \<^verbatim>\<open>pg_strong_random failed\<close> and returns no slug, neither a partial one
  nor one from another generator: the result is the error, and the trace shows the clock
  read, the draws up to and including the first failing one, and nothing after it.
\<close>

theorem random_failure_aborts:
  assumes "valid_length L" and "j < nat L" and "rand_src w j = None"
  shows "fst (gen_unique_slug (Some L) w) = Inl random_failed \<and>
         fst (timestamp_to_slug ts L w) = Inl random_failed \<and>
         random_failed = Ereport ERRCODE_INTERNAL_ERROR ''pg_strong_random failed'' None \<and>
         ((\<forall>k<j. rand_src w k \<noteq> None) \<longrightarrow>
            trace (snd (gen_unique_slug (Some L) w)) =
              trace w @ [ClockGettime, SwitchArm (switch_precision L)] @
              replicate (Suc j) StrongRandom)"
proof (intro conjI impI)
  let ?w1 = "snd (get_timestamp_value L w)"
  have r1: "rand_src ?w1 = rand_src w" by (rule rand_src_get_timestamp_value)
  show "fst (gen_unique_slug (Some L) w) = Inl random_failed"
    unfolding gen_unique_slug_valid[OF assms(1)]
    by (rule timestamp_to_slug_fail[OF assms(1,2)]) (simp add: r1 assms(3))
  show "fst (timestamp_to_slug ts L w) = Inl random_failed"
    by (rule timestamp_to_slug_fail[OF assms])
  show "random_failed = Ereport ERRCODE_INTERNAL_ERROR ''pg_strong_random failed'' None"
    by (simp add: random_failed_def)
  assume first: "\<forall>k<j. rand_src w k \<noteq> None"
  note h = valid_length_half[OF assms(1)]
  have j: "int (0 + j) < L" using assms(2) by simp
  have "trace (snd (slug_loop (snprintf_0llu 20 L (fst (get_timestamp_value L w))) L (L sdiv 2) 0 [] ?w1)) =
          trace ?w1 @ replicate (Suc j) StrongRandom"
    by (rule slug_loop_fail_trace[OF digits_readable[OF h(4,5)] j]) (simp_all add: r1 assms(3) first)
  then show "trace (snd (gen_unique_slug (Some L) w)) =
              trace w @ [ClockGettime, SwitchArm (switch_precision L)] @
              replicate (Suc j) StrongRandom"
    unfolding gen_unique_slug_valid[OF assms(1)] timestamp_to_slug_def Let_def
    by (simp add: get_timestamp_value_trace)
qed

text \<open>In \<open>w_fail\<close> the fourth draw (position 3) is the first to fail.\<close>

theorem random_failure_aborts_witness:
  "valid_length 10 \<and> (3::nat) < nat 10 \<and> rand_src w_fail 3 = None \<and>
   \<not> (\<exists>k<3. rand_src w_fail k = None) \<and>
   fst (gen_unique_slug (Some 10) w_fail) =
     Inl (Ereport ERRCODE_INTERNAL_ERROR ''pg_strong_random failed'' None) \<and>
   trace (snd (gen_unique_slug (Some 10) w_fail)) =
     [ClockGettime, SwitchArm Case10, StrongRandom, StrongRandom, StrongRandom, StrongRandom]"
proof -
  have v: "valid_length 10" by (simp add: valid_length_def)
  have j: "(3::nat) < nat 10" by simp
  have n: "rand_src w_fail 3 = None" by (simp add: w_fail_def)
  have f: "\<forall>k<3. rand_src w_fail k \<noteq> None" by (simp add: w_fail_def)
  from random_failure_aborts[OF v j n] f v n run_fail_10
  show ?thesis by simp
qed

subsection \<open>C7: values with more digits than the length\<close>

text \<open>
  Claim C7 says that for a timestamp value whose decimal representation has more than
  \<open>digit_length\<close> digits the digit string that is encoded consists of the lowest-order
  \<open>digit_length\<close> digits of the value (the high-order digits are cut off), and that this
  is deterministic.

  The width of \<^verbatim>\<open>%0*llu\<close> is a minimum: \<^verbatim>\<open>snprintf\<close> writes the whole decimal
  representation (cut after 19 characters by the size of the buffer), and the loop reads
  its first \<open>digit_length\<close> characters. For the value 12345678901 at length 10 the digit
  string is \<^verbatim>\<open>1234567890\<close>, not \<^verbatim>\<open>2345678901\<close>, and the slug encodes the former.
\<close>

theorem low_order_digits_counterexample:
  "dec_digits (unat (12345678901 :: 64 word)) = ''12345678901'' \<and>
   digit_string 12345678901 10 = ''1234567890'' \<and>
   spec_low_order_digits 12345678901 10 = ''2345678901'' \<and>
   digit_string 12345678901 10 \<noteq> spec_low_order_digits 12345678901 10 \<and>
   fst (timestamp_to_slug 12345678901 10 w_ok) = Inr ''ruOhd-ZJbMq'' \<and>
   decode_slug ''ruOhd-ZJbMq'' = ''1234567890''"
  by (simp add: dec_11 digit_string_11 low_11 run_11 run_decode_11)

text \<open>
  Claim C7, amended. For every timestamp value whose decimal representation has more than
  \<open>digit_length\<close> digits (that is, a value of at least \<open>10 ^ digit_length\<close>), the digit
  string that is encoded consists of the highest-order \<open>digit_length\<close> digits of the
  value: the first \<open>digit_length\<close> characters of its decimal representation, which is the
  representation of the value divided by ten to the number of digits in excess (the
  low-order digits are cut off). This is deterministic: the digit string depends on the
  timestamp and the length only, and every slug returned for them decodes to it.
\<close>

theorem high_order_digits_kept:
  assumes "valid_length L" and "nat L < length (dec_digits (unat ts))"
  shows "10 ^ nat L \<le> unat ts \<and>
         digit_string ts L = take (nat L) (dec_digits (unat ts)) \<and>
         digit_string ts L =
           dec_digits (unat ts div 10 ^ (length (dec_digits (unat ts)) - nat L)) \<and>
         (\<forall>w slug. fst (timestamp_to_slug ts L w) = Inr slug \<longrightarrow>
            decode_slug slug = digit_string ts L)"
proof -
  note h = valid_length_half[OF assms(1)]
  let ?n = "length (dec_digits (unat ts))"
  have a: "10 ^ nat L \<le> unat ts"
  proof (rule ccontr)
    assume "\<not> 10 ^ nat L \<le> unat ts"
    then have "unat ts < 10 ^ nat L" by simp
    moreover have "0 < nat L" using h(2) by linarith
    ultimately have "length (dec_digits (unat ts)) \<le> nat L" by (intro length_dec_digits_le)
    with assms(2) show False by simp
  qed
  have b: "digit_string ts L = take (nat L) (dec_digits (unat ts))"
    by (rule digit_string_overflow[OF assms(1)]) (use assms(2) in simp)
  have "?n - nat L < ?n" using assms(2) h(2) by simp
  from dec_digits_div[OF this] assms(2)
  have c: "dec_digits (unat ts div 10 ^ (?n - nat L)) = take (nat L) (dec_digits (unat ts))"
    by simp
  from a b c decode_timestamp_to_slug[OF assms(1)] show ?thesis by simp
qed

theorem high_order_digits_kept_witness:
  "valid_length 10 \<and> nat 10 < length (dec_digits (unat (12345678901 :: 64 word))) \<and>
   digit_string 12345678901 10 = take (nat 10) ''12345678901'' \<and>
   digit_string 12345678901 10 = dec_digits (12345678901 div 10 ^ (11 - nat 10)) \<and>
   decode_slug ''ruOhd-ZJbMq'' = digit_string 12345678901 10"
proof -
  have v: "valid_length 10" by (simp add: valid_length_def)
  have n: "nat 10 < length (dec_digits (unat (12345678901 :: 64 word)))" by (simp add: dec_11)
  have u: "unat (12345678901 :: 64 word) = 12345678901" by simp
  from high_order_digits_kept[OF v n] run_11 v n show ?thesis
    by (auto simp add: dec_11 u)
qed

subsection \<open>C8: the scenario of the timestamp 1700000000\<close>

text \<open>
  Claim C8. For the timestamp value 1700000000 with length 10 the zero-padded digit string
  is \<^verbatim>\<open>1700000000\<close>, and the slug consists of five letters, the separator and five
  letters, where the letter at index 0 is from bucket 1 (\<^verbatim>\<open>QwErTy\<close>), the letter at index
  1 from bucket 7 (\<^verbatim>\<open>JkLzX\<close>) and every other letter from bucket 0 (\<^verbatim>\<open>qWeRtY\<close>). This
  holds of \<^verbatim>\<open>timestamp_to_slug\<close> at that value and of \<^verbatim>\<open>gen_unique_slug\<close> when the clock
  reads 1700000000 seconds, and a slug is returned whenever the ten draws succeed.
\<close>

theorem scenario_1700000000:
  "digit_string 1700000000 10 = ''1700000000'' \<and>
   digit_buckets ! 1 = ''QwErTy'' \<and> digit_buckets ! 7 = ''JkLzX'' \<and> digit_buckets ! 0 = ''qWeRtY'' \<and>
   (fst (timestamp_to_slug 1700000000 10 w) = Inr slug \<or>
    tv_sec (clock w) = 1700000000 \<and> fst (gen_unique_slug (Some 10) w) = Inr slug \<longrightarrow>
      length slug = 11 \<and> slug ! 5 = CHR ''-'' \<and>
      slug ! 0 \<in> set ''QwErTy'' \<and> slug ! 1 \<in> set ''JkLzX'' \<and>
      (\<forall>j \<in> {2, 3, 4, 6, 7, 8, 9, 10}. slug ! j \<in> set ''qWeRtY'')) \<and>
   ((\<forall>k<10. rand_src w k \<noteq> None) \<longrightarrow>
      (\<exists>s. fst (timestamp_to_slug 1700000000 10 w) = Inr s) \<and>
      (tv_sec (clock w) = 1700000000 \<longrightarrow> (\<exists>s. fst (gen_unique_slug (Some 10) w) = Inr s)))"
proof -
  have v: "valid_length 10" by (simp add: valid_length_def)
  have shape: "length slug = 11 \<and> slug ! 5 = CHR ''-'' \<and>
      slug ! 0 \<in> set ''QwErTy'' \<and> slug ! 1 \<in> set ''JkLzX'' \<and>
      (\<forall>j \<in> {2, 3, 4, 6, 7, 8, 9, 10}. slug ! j \<in> set ''qWeRtY'')"
    if run: "fst (timestamp_to_slug 1700000000 10 v1) = Inr slug" for v1
  proof -
    have m: "slug ! (if i < 5 then i else i + 1) \<in>
               set (digit_buckets ! digit_value (''1700000000'' ! i))" if "i < 10" for i
      using slug_letter_mem[OF v run, of i] that by (simp add: digit_string_sec_10)
    have l: "length slug = 11" using timestamp_to_slug_length[OF v run] by simp
    have s: "slug ! 5 = CHR ''-''" using separator_facts(1)[OF v run]
      by (simp add: signed_divide_int_def)
    from m[of 0] have p0: "slug ! 0 \<in> set ''QwErTy''"
      by (simp add: digit_value_def digit_buckets_def)
    from m[of 1] have p1: "slug ! 1 \<in> set ''JkLzX''"
      by (simp add: digit_value_def digit_buckets_def)
    from m[of 2] have p2: "slug ! 2 \<in> set ''qWeRtY''"
      by (simp add: digit_value_def digit_buckets_def)
    from m[of 3] have p3: "slug ! 3 \<in> set ''qWeRtY''"
      by (simp add: digit_value_def digit_buckets_def)
    from m[of 4] have p4: "slug ! 4 \<in> set ''qWeRtY''"
      by (simp add: digit_value_def digit_buckets_def)
    from m[of 5] have p6: "slug ! 6 \<in> set ''qWeRtY''"
      by (simp add: digit_value_def digit_buckets_def)
    from m[of 6] have p7: "slug ! 7 \<in> set ''qWeRtY''"
      by (simp add: digit_value_def digit_buckets_def)
    from m[of 7] have p8: "slug ! 8 \<in> set ''qWeRtY''"
      by (simp add: digit_value_def digit_buckets_def)
    from m[of 8] have p9: "slug ! 9 \<in> set ''qWeRtY''"
      by (simp add: digit_value_def digit_buckets_def)
    from m[of 9] have p10: "slug ! 10 \<in> set ''qWeRtY''"
      by (simp add: digit_value_def digit_buckets_def)
    from l s p0 p1 p2 p3 p4 p6 p7 p8 p9 p10 show ?thesis by blast
  qed
  have gen: "gen_unique_slug (Some 10) w =
      timestamp_to_slug 1700000000 10 (snd (get_timestamp_value 10 w))"
    if "tv_sec (clock w) = 1700000000"
    using that by (simp add: gen_unique_slug_valid[OF v] get_timestamp_value_sec)
  have a: "fst (timestamp_to_slug 1700000000 10 w) = Inr slug \<or>
    tv_sec (clock w) = 1700000000 \<and> fst (gen_unique_slug (Some 10) w) = Inr slug \<longrightarrow>
      length slug = 11 \<and> slug ! 5 = CHR ''-'' \<and>
      slug ! 0 \<in> set ''QwErTy'' \<and> slug ! 1 \<in> set ''JkLzX'' \<and>
      (\<forall>j \<in> {2, 3, 4, 6, 7, 8, 9, 10}. slug ! j \<in> set ''qWeRtY'')"
    using shape gen by metis
  have b: "(\<forall>k<10. rand_src w k \<noteq> None) \<longrightarrow>
      (\<exists>s. fst (timestamp_to_slug 1700000000 10 w) = Inr s) \<and>
      (tv_sec (clock w) = 1700000000 \<longrightarrow> (\<exists>s. fst (gen_unique_slug (Some 10) w) = Inr s))"
  proof (intro impI conjI)
    assume r: "\<forall>k<10. rand_src w k \<noteq> None"
    then have r0: "\<forall>k<nat 10. rand_src w k \<noteq> None" by simp
    from timestamp_to_slug_ok[OF v r0]
    show "\<exists>s. fst (timestamp_to_slug 1700000000 10 w) = Inr s" by blast
    assume c: "tv_sec (clock w) = 1700000000"
    from r have r1: "\<forall>k<nat 10. rand_src (snd (get_timestamp_value 10 w)) k \<noteq> None"
      by (simp add: rand_src_get_timestamp_value)
    from timestamp_to_slug_ok[OF v r1]
    show "\<exists>s. fst (gen_unique_slug (Some 10) w) = Inr s" unfolding gen[OF c] by blast
  qed
  have c: "digit_buckets ! 1 = ''QwErTy'' \<and> digit_buckets ! 7 = ''JkLzX'' \<and> digit_buckets ! 0 = ''qWeRtY''"
    by (simp add: digit_buckets_def)
  from a b c digit_string_sec_10 show ?thesis by blast
qed

text \<open>With the clock and the random bytes of \<open>w_ok\<close>.\<close>

theorem scenario_1700000000_witness:
  "\<not> (\<exists>k<10. rand_src w_ok k = None) \<and> tv_sec (clock w_ok) = 1700000000 \<and>
   fst (gen_unique_slug (Some 10) w_ok) = Inr ''rJYqW-eRtYq'' \<and>
   ''rJYqW-eRtYq'' ! 0 \<in> set ''QwErTy'' \<and> ''rJYqW-eRtYq'' ! 1 \<in> set ''JkLzX'' \<and>
   ''rJYqW-eRtYq'' ! 5 = CHR ''-''"
proof -
  have r: "\<forall>k<10. rand_src w_ok k \<noteq> None" by (simp add: w_ok_def)
  have c: "tv_sec (clock w_ok) = 1700000000" by (simp add: w_ok_def)
  from scenario_1700000000[of w_ok "''rJYqW-eRtYq''"] r c run_gen_10
  show ?thesis by simp
qed

subsection \<open>C9: the buckets are disjoint, so a slug determines its digit string\<close>

text \<open>
  Claim C9. The ten buckets are pairwise disjoint, their 52 letters all distinct, so every
  character of a slug other than the separator belongs to exactly one bucket; and the
  digit string is recovered from the slug: decoding after encoding is the identity, for
  every digit string and every choice of random bytes (stated for the loop on an
  arbitrary string of digits, and for \<^verbatim>\<open>timestamp_to_slug\<close> at every valid length).
\<close>

theorem decode_encode:
  "distinct (concat digit_buckets) \<and> length (concat digit_buckets) = 52 \<and>
   (\<forall>d<10. \<forall>e<10. d \<noteq> e \<longrightarrow> set (digit_buckets ! d) \<inter> set (digit_buckets ! e) = {}) \<and>
   (list_all isdigit digits \<and>
    fst (slug_loop digits (int (length digits)) half 0 [] w) = Inr slug \<longrightarrow>
      decode_slug slug = digits) \<and>
   (valid_length L \<and> fst (timestamp_to_slug ts L w') = Inr slug' \<longrightarrow>
      decode_slug slug' = digit_string ts L \<and>
      (\<forall>c\<in>set slug'. c \<noteq> CHR ''-'' \<longrightarrow> (\<exists>!d. d < 10 \<and> c \<in> set (digit_buckets ! d))))"
proof -
  have a: "\<forall>d<10. \<forall>e<10. d \<noteq> e \<longrightarrow> set (digit_buckets ! d) \<inter> set (digit_buckets ! e) = {}"
    using buckets_disjoint by blast
  have b: "list_all isdigit digits \<and>
    fst (slug_loop digits (int (length digits)) half 0 [] w) = Inr slug \<longrightarrow>
      decode_slug slug = digits"
    using decode_slug_loop[of digits "int (length digits)" half w slug] by simp
  have c: "valid_length L \<and> fst (timestamp_to_slug ts L w') = Inr slug' \<longrightarrow>
      decode_slug slug' = digit_string ts L \<and>
      (\<forall>c\<in>set slug'. c \<noteq> CHR ''-'' \<longrightarrow> (\<exists>!d. d < 10 \<and> c \<in> set (digit_buckets ! d)))"
    using decode_timestamp_to_slug letter_unique_bucket by blast
  from buckets_distinct buckets_52 a b c show ?thesis by blast
qed

text \<open>On the digit strings \<^verbatim>\<open>42\<close> and \<^verbatim>\<open>1700000000\<close>, with the random bytes of \<open>w_ok\<close>.\<close>

theorem decode_encode_witness:
  "list_all isdigit ''42'' \<and> fst (slug_loop ''42'' (int (length ''42'')) 1 0 [] w_ok) = Inr ''G-u'' \<and>
   decode_slug ''G-u'' = ''42'' \<and>
   valid_length 10 \<and> fst (timestamp_to_slug 1700000000 10 w_ok) = Inr ''rJYqW-eRtYq'' \<and>
   decode_slug ''rJYqW-eRtYq'' = ''1700000000'' \<and> digit_string 1700000000 10 = ''1700000000''"
proof -
  have v: "valid_length 10" by (simp add: valid_length_def)
  have d: "list_all isdigit ''42''" by (simp add: isdigit_def)
  have l: "fst (slug_loop ''42'' (int (length ''42'')) 1 0 [] w_ok) = Inr ''G-u''"
    using run_loop_42 by simp
  from decode_encode[where digits = "''42''" and half = 1 and w = w_ok and slug = "''G-u''"
      and L = 10 and ts = 1700000000 and w' = w_ok and slug' = "''rJYqW-eRtYq''"]
    v d l run_sec_10 run_decode run_decode_42 digit_string_sec_10
  show ?thesis by simp
qed

subsection \<open>C10: the default arm of the switch\<close>

text \<open>
  Claim C10. A length that has passed the validation selects one of the four named arms
  of the switch in \<^verbatim>\<open>get_timestamp_value\<close>; and in every call of \<^verbatim>\<open>gen_unique_slug\<close>,
  whatever its argument, the events of the call do not contain the default arm.
\<close>

theorem default_arm_unreachable:
  "(valid_length len \<longrightarrow> switch_precision len \<noteq> CaseDefault) \<and>
   (\<exists>evs. trace (snd (gen_unique_slug arg w)) = trace w @ evs \<and> SwitchArm CaseDefault \<notin> set evs)"
proof -
  define l where "l = (case arg of None \<Rightarrow> 16 | Some v \<Rightarrow> (v::int))"
  have g: "gen_unique_slug arg w = gen_unique_slug (Some l) w"
    by (cases arg) (simp_all add: l_def gen_unique_slug_null)
  have "\<exists>evs. trace (snd (gen_unique_slug (Some l) w)) = trace w @ evs \<and> SwitchArm CaseDefault \<notin> set evs"
  proof (cases "valid_length l")
    case True
    from gen_unique_slug_trace[OF True, of w] obtain m where
      "trace (snd (gen_unique_slug (Some l) w)) =
         trace w @ [ClockGettime, SwitchArm (switch_precision l)] @ replicate m StrongRandom"
      by blast
    moreover have "SwitchArm CaseDefault \<notin>
        set ([ClockGettime, SwitchArm (switch_precision l)] @ replicate m StrongRandom)"
      using valid_length_arm[OF True] by auto
    ultimately show ?thesis by blast
  next
    case False
    then show ?thesis by (simp add: gen_unique_slug_invalid)
  qed
  with g show ?thesis by (simp add: valid_length_arm)
qed

text \<open>
  At length 13; called on its own with the precision 12, \<^verbatim>\<open>get_timestamp_value\<close> would
  take the default arm.
\<close>

theorem default_arm_unreachable_witness:
  "valid_length 13 \<and> switch_precision 13 = Case13 \<and> switch_precision 12 = CaseDefault \<and>
   trace (snd (gen_unique_slug (Some 13) w_ok)) =
     trace w_ok @
     [ClockGettime, SwitchArm Case13, StrongRandom, StrongRandom, StrongRandom, StrongRandom,
      StrongRandom, StrongRandom, StrongRandom, StrongRandom, StrongRandom, StrongRandom,
      StrongRandom, StrongRandom, StrongRandom]"
proof -
  have v: "valid_length 13" by (simp add: valid_length_def)
  have t: "trace w_ok = []" by (simp add: w_ok_def)
  from default_arm_unreachable[of 13 "Some 13" w_ok] v t run_13_trace
  show ?thesis by (simp add: switch_precision_def)
qed

end
